theory Spec2Isabelle
  imports Complex_Main
begin

chapter \<open>The model\<close>

section \<open>JavaScript numbers\<close>

text \<open>
  A JavaScript \<^verbatim>\<open>number\<close> is a finite value, one of the two infinities, or
  \<^verbatim>\<open>NaN\<close>. The operations used by the sources below (\<^verbatim>\<open>Math.max\<close>,
  \<^verbatim>\<open>Math.min\<close>, \<^verbatim>\<open><\<close>, truthiness) only compare and select, so the
  finite values are modelled as reals; the sign of zero is not distinguished.
\<close>

datatype jsnum = NaN | NegInf | Fin real | PosInf

text \<open>The comparison \<^verbatim>\<open>a < b\<close>: false as soon as one side is \<^verbatim>\<open>NaN\<close>.\<close>

fun js_lt :: "jsnum \<Rightarrow> jsnum \<Rightarrow> bool" where
  "js_lt (Fin x) (Fin y) = (x < y)"
| "js_lt NaN _ = False"
| "js_lt _ NaN = False"
| "js_lt _ NegInf = False"
| "js_lt PosInf _ = False"
| "js_lt NegInf _ = True"
| "js_lt _ PosInf = True"

text \<open>\<^verbatim>\<open>Math.max(a, b)\<close>: \<^verbatim>\<open>NaN\<close> if either argument is \<^verbatim>\<open>NaN\<close>.\<close>

fun math_max :: "jsnum \<Rightarrow> jsnum \<Rightarrow> jsnum" where
  "math_max NaN _ = NaN"
| "math_max _ NaN = NaN"
| "math_max PosInf _ = PosInf"
| "math_max _ PosInf = PosInf"
| "math_max NegInf b = b"
| "math_max a NegInf = a"
| "math_max (Fin x) (Fin y) = Fin (max x y)"

text \<open>
  \<^verbatim>\<open>v || 0\<close> for a \<^verbatim>\<open>number | undefined\<close>: the falsy values are
  \<^verbatim>\<open>undefined\<close>, \<^verbatim>\<open>NaN\<close> and zero.
\<close>

fun or_zero :: "jsnum option \<Rightarrow> jsnum" where
  "or_zero None = Fin 0"
| "or_zero (Some NaN) = Fin 0"
| "or_zero (Some v) = v"

section \<open>Removable: the garbage-collection time\<close>

text \<open>
  \<^verbatim>\<open>gcTime!: number\<close> is declared without an initialiser, so the field is
  \<^verbatim>\<open>undefined\<close> (\<open>None\<close>) until the first \<^verbatim>\<open>updateGcTime\<close>.
  \<open>gcTimeout\<close> is the handle of the pending timer, if any.
\<close>

record removable =
  gcTime :: "jsnum option"
  gcTimeout :: "nat option"

text \<open>\<^verbatim>\<open>newGcTime ?? (isServer ? Infinity : 5 * 60 * 1000)\<close>\<close>

definition requestedOrDefault :: "bool \<Rightarrow> jsnum option \<Rightarrow> jsnum" where
  "requestedOrDefault isServer newGcTime =
     (case newGcTime of
        Some n \<Rightarrow> n
      | None \<Rightarrow> (if isServer then PosInf else Fin (5 * 60 * 1000)))"

definition updateGcTime :: "bool \<Rightarrow> jsnum option \<Rightarrow> removable \<Rightarrow> removable" where
  "updateGcTime isServer newGcTime r =
     r\<lparr>gcTime := Some (math_max (or_zero (gcTime r)) (requestedOrDefault isServer newGcTime))\<rparr>"

text \<open>A sequence of calls on one instance, first request first.\<close>

definition updateGcTimes :: "bool \<Rightarrow> jsnum option list \<Rightarrow> removable \<Rightarrow> removable" where
  "updateGcTimes isServer reqs r = foldl (\<lambda>r' q. updateGcTime isServer q r') r reqs"

text \<open>
  \<^verbatim>\<open>if (this.#gcTimeout)\<close> tests the handle for truthiness: an unset handle and the
  handle 0 are both skipped, and the field keeps its value then.
\<close>

definition clearGcTimeout :: "removable \<Rightarrow> removable" where
  "clearGcTimeout r =
     (case gcTimeout r of
        Some t \<Rightarrow> (if t \<noteq> 0 then r\<lparr>gcTimeout := None\<rparr> else r)
      | None \<Rightarrow> r)"

definition destroy :: "removable \<Rightarrow> removable" where
  "destroy r = clearGcTimeout r"

section \<open>Subscribable: the listener registry\<close>

text \<open>
  \<^verbatim>\<open>listeners\<close> is a JavaScript \<^verbatim>\<open>Set\<close>: insertion ordered, without
  duplicates. \<^verbatim>\<open>add\<close> of a member changes nothing, \<^verbatim>\<open>delete\<close> of a
  non-member changes nothing. The hooks \<^verbatim>\<open>onSubscribe\<close> and
  \<^verbatim>\<open>onUnsubscribe\<close> do nothing in the base class and are overridden by owners;
  the model records every invocation of a hook, in order.
\<close>

datatype hook = OnSubscribe | OnUnsubscribe

record 'l subscribable =
  listeners :: "'l list"
  hooks :: "hook list"

definition set_add :: "'l \<Rightarrow> 'l list \<Rightarrow> 'l list" where
  "set_add l ls = (if l \<in> set ls then ls else ls @ [l])"

definition set_delete :: "'l \<Rightarrow> 'l list \<Rightarrow> 'l list" where
  "set_delete l ls = filter (\<lambda>x. x \<noteq> l) ls"

definition new_subscribable :: "'l subscribable" where
  "new_subscribable = \<lparr>listeners = [], hooks = []\<rparr>"

text \<open>The closure \<^verbatim>\<open>subscribe\<close> returns: it captures the listener.\<close>

definition unsubscribe :: "'l \<Rightarrow> 'l subscribable \<Rightarrow> 'l subscribable" where
  "unsubscribe l s =
     s\<lparr>listeners := set_delete l (listeners s), hooks := hooks s @ [OnUnsubscribe]\<rparr>"

definition subscribe ::
  "'l \<Rightarrow> 'l subscribable \<Rightarrow> ('l subscribable \<Rightarrow> 'l subscribable) \<times> 'l subscribable" where
  "subscribe l s =
     (unsubscribe l,
      s\<lparr>listeners := set_add l (listeners s), hooks := hooks s @ [OnSubscribe]\<rparr>)"

definition hasListeners :: "'l subscribable \<Rightarrow> bool" where
  "hasListeners s = (length (listeners s) > 0)"

section \<open>The notify manager\<close>

text \<open>
  \<^verbatim>\<open>createNotifyManager\<close> closes over \<^verbatim>\<open>queue\<close>, \<^verbatim>\<open>transactions\<close>
  and three replaceable functions. The model is of the manager as it is created: the
  defaults \<^verbatim>\<open>notifyFn = (callback) => callback()\<close>,
  \<^verbatim>\<open>batchNotifyFn = (callback) => callback()\<close> and
  \<^verbatim>\<open>scheduleFn = (cb) => setTimeout(cb, 0)\<close>.

  Client code (the function given to \<^verbatim>\<open>batch\<close>, a callback given to
  \<^verbatim>\<open>schedule\<close>) can reach the closed-over variables through the manager's
  functions only. Such code is a list of commands: an effect of its own (\<open>Emit\<close>, an
  observable label), \<^verbatim>\<open>throw\<close>, a call of \<^verbatim>\<open>schedule\<close> or of
  \<^verbatim>\<open>batch\<close>, and \<^verbatim>\<open>try { ... } catch {}\<close>.
\<close>

datatype cmd =
    Emit nat
  | Throw nat
  | Schedule "cmd list"
  | Batch "cmd list"
  | TryCatch "cmd list"

type_synonym callback = "cmd list"

text \<open>
  What \<^verbatim>\<open>scheduleFn\<close> is handed: by \<^verbatim>\<open>schedule\<close> the closure
  \<^verbatim>\<open>() => notifyFn(callback)\<close>, by \<^verbatim>\<open>flush\<close> the closure over
  \<^verbatim>\<open>originalQueue\<close>, an array that is known by its address.
\<close>

datatype task = NotifyTask callback | FlushTask nat

text \<open>
  Arrays are objects: \<^verbatim>\<open>queue\<close> holds a reference, \<^verbatim>\<open>push\<close> mutates
  the array referred to, \<^verbatim>\<open>queue = []\<close> allocates. \<open>heap\<close> maps an address to
  the array's elements and \<open>next_addr\<close> is the first address not yet allocated.
  \<open>timers\<close> are the closures given to \<^verbatim>\<open>setTimeout(cb, 0)\<close> that have not
  run yet, oldest first; \<open>emitted\<close> collects the labels of \<open>Emit\<close>.
\<close>

record notify_manager =
  heap :: "nat \<Rightarrow> callback list"
  next_addr :: nat
  queue :: nat
  transactions :: int
  timers :: "task list"
  emitted :: "nat list"

definition createNotifyManager :: notify_manager where
  "createNotifyManager =
     \<lparr>heap = (\<lambda>_. []), next_addr = 1, queue = 0, transactions = 0, timers = [],
      emitted = []\<rparr>"

text \<open>The default \<^verbatim>\<open>scheduleFn\<close>: \<^verbatim>\<open>setTimeout(cb, 0)\<close>.\<close>

definition scheduleFn :: "task \<Rightarrow> notify_manager \<Rightarrow> notify_manager" where
  "scheduleFn cb s = s\<lparr>timers := timers s @ [cb]\<rparr>"

definition push :: "nat \<Rightarrow> callback \<Rightarrow> notify_manager \<Rightarrow> notify_manager" where
  "push a cb s = s\<lparr>heap := (heap s)(a := heap s a @ [cb])\<rparr>"

definition schedule :: "callback \<Rightarrow> notify_manager \<Rightarrow> notify_manager" where
  "schedule cb s =
     (if transactions s \<noteq> 0 then push (queue s) cb s
      else scheduleFn (NotifyTask cb) s)"

definition flush :: "notify_manager \<Rightarrow> notify_manager" where
  "flush s =
     (let originalQueue = queue s;
          s1 = s\<lparr>heap := (heap s)(next_addr s := []),
                 queue := next_addr s,
                 next_addr := Suc (next_addr s)\<rparr>
      in if length (heap s1 originalQueue) \<noteq> 0
         then scheduleFn (FlushTask originalQueue) s1
         else s1)"

text \<open>
  \<^verbatim>\<open>batch\<close>: the callback is any computation on the manager that returns a value
  (\<open>Inr\<close>) or throws (\<open>Inl\<close>). The \<^verbatim>\<open>finally\<close> block runs either way, after
  which the value is returned or the exception propagates.
\<close>

definition batch ::
  "(notify_manager \<Rightarrow> (nat + 'a) \<times> notify_manager) \<Rightarrow> notify_manager
     \<Rightarrow> (nat + 'a) \<times> notify_manager" where
  "batch callback s =
     (let s1 = s\<lparr>transactions := transactions s + 1\<rparr>;
          (result, s2) = callback s1;
          s3 = s2\<lparr>transactions := transactions s2 - 1\<rparr>;
          s4 = (if transactions s3 = 0 then flush s3 else s3)
      in (result, s4))"

text \<open>
  \<^verbatim>\<open>batch\<close> calls its argument on one state only; the recursion of \<open>exec\<close> through
  \<^verbatim>\<open>batch\<close> below needs this as a congruence rule.
\<close>

lemma batch_cong [fundef_cong]:
  "(\<And>s'. f s' = g s') \<Longrightarrow> s = t \<Longrightarrow> batch f s = batch g t"
  by (simp add: batch_def)

text \<open>Running client code against the manager.\<close>

fun exec :: "cmd \<Rightarrow> notify_manager \<Rightarrow> (nat + unit) \<times> notify_manager"
  and exec_all :: "cmd list \<Rightarrow> notify_manager \<Rightarrow> (nat + unit) \<times> notify_manager" where
  "exec (Emit n) s = (Inr (), s\<lparr>emitted := emitted s @ [n]\<rparr>)"
| "exec (Throw e) s = (Inl e, s)"
| "exec (Schedule cb) s = (Inr (), schedule cb s)"
| "exec (Batch body) s = batch (exec_all body) s"
| "exec (TryCatch body) s = (Inr (), snd (exec_all body s))"
| "exec_all [] s = (Inr (), s)"
| "exec_all (c # cs) s =
     (case exec c s of
        (Inl e, s') \<Rightarrow> (Inl e, s')
      | (Inr _, s') \<Rightarrow> exec_all cs s')"

text \<open>The default \<^verbatim>\<open>notifyFn\<close> and \<^verbatim>\<open>batchNotifyFn\<close> call their argument.\<close>

definition notifyFn :: "callback \<Rightarrow> notify_manager \<Rightarrow> (nat + unit) \<times> notify_manager" where
  "notifyFn cb s = exec_all cb s"

text \<open>
  \<^verbatim>\<open>originalQueue.forEach((callback) => { notifyFn(callback) })\<close> on the array at
  address \<open>a\<close>. \<^verbatim>\<open>forEach\<close> reads the length once, before the first call, and
  reads each element when its turn comes, skipping an index the array no longer has; an
  exception thrown by a call ends the loop and propagates.
\<close>

function forEach_from ::
  "nat \<Rightarrow> nat \<Rightarrow> nat \<Rightarrow> notify_manager \<Rightarrow> (nat + unit) \<times> notify_manager" where
  "forEach_from a i len s =
     (if i < len then
        (if i < length (heap s a) then
           (case notifyFn (heap s a ! i) s of
              (Inl e, s') \<Rightarrow> (Inl e, s')
            | (Inr _, s') \<Rightarrow> forEach_from a (Suc i) len s')
         else forEach_from a (Suc i) len s)
      else (Inr (), s))"
  by pat_completeness auto
termination
  by (relation "measure (\<lambda>(a, i, len, s). len - i)") auto

definition forEach :: "nat \<Rightarrow> notify_manager \<Rightarrow> (nat + unit) \<times> notify_manager" where
  "forEach a s = forEach_from a 0 (length (heap s a)) s"

definition batchNotifyFn ::
  "(notify_manager \<Rightarrow> (nat + unit) \<times> notify_manager) \<Rightarrow> notify_manager
     \<Rightarrow> (nat + unit) \<times> notify_manager" where
  "batchNotifyFn callback s = callback s"

text \<open>A timer fires: the closure handed to \<^verbatim>\<open>scheduleFn\<close> runs.\<close>

fun run_task :: "task \<Rightarrow> notify_manager \<Rightarrow> (nat + unit) \<times> notify_manager" where
  "run_task (NotifyTask cb) s = notifyFn cb s"
| "run_task (FlushTask a) s = batchNotifyFn (forEach a) s"

text \<open>The event loop takes the oldest timer, if there is one.\<close>

definition run_next :: "notify_manager \<Rightarrow> (nat + unit) \<times> notify_manager" where
  "run_next s =
     (case timers s of
        [] \<Rightarrow> (Inr (), s)
      | t # ts \<Rightarrow> run_task t (s\<lparr>timers := ts\<rparr>))"

text \<open>
  What a piece of client code does when it runs inside a batch, read off its text: how it
  completes, and which callbacks it passes to \<^verbatim>\<open>schedule\<close> and which labels it
  emits before it completes.
\<close>

fun completion :: "cmd \<Rightarrow> nat + unit"
  and completion_all :: "cmd list \<Rightarrow> nat + unit" where
  "completion (Emit n) = Inr ()"
| "completion (Throw e) = Inl e"
| "completion (Schedule cb) = Inr ()"
| "completion (Batch body) = completion_all body"
| "completion (TryCatch body) = Inr ()"
| "completion_all [] = Inr ()"
| "completion_all (c # cs) =
     (case completion c of Inl e \<Rightarrow> Inl e | Inr _ \<Rightarrow> completion_all cs)"

fun scheduled_by :: "cmd \<Rightarrow> callback list"
  and scheduled_by_all :: "cmd list \<Rightarrow> callback list" where
  "scheduled_by (Emit n) = []"
| "scheduled_by (Throw e) = []"
| "scheduled_by (Schedule cb) = [cb]"
| "scheduled_by (Batch body) = scheduled_by_all body"
| "scheduled_by (TryCatch body) = scheduled_by_all body"
| "scheduled_by_all [] = []"
| "scheduled_by_all (c # cs) =
     scheduled_by c @ (case completion c of Inl e \<Rightarrow> [] | Inr _ \<Rightarrow> scheduled_by_all cs)"

fun emitted_by :: "cmd \<Rightarrow> nat list"
  and emitted_by_all :: "cmd list \<Rightarrow> nat list" where
  "emitted_by (Emit n) = [n]"
| "emitted_by (Throw e) = []"
| "emitted_by (Schedule cb) = []"
| "emitted_by (Batch body) = emitted_by_all body"
| "emitted_by (TryCatch body) = emitted_by_all body"
| "emitted_by_all [] = []"
| "emitted_by_all (c # cs) =
     emitted_by c @ (case completion c of Inl e \<Rightarrow> [] | Inr _ \<Rightarrow> emitted_by_all cs)"

text \<open>
  Between two turns of the event loop no batch is open and the queue is empty; the
  current queue is an allocated array.
\<close>

definition quiescent :: "notify_manager \<Rightarrow> bool" where
  "quiescent s = (transactions s = 0 \<and> heap s (queue s) = [] \<and> queue s < next_addr s)"

text \<open>The state a piece of client code leaves when it runs inside an open batch.\<close>

definition after_in_batch ::
  "callback list \<Rightarrow> nat list \<Rightarrow> notify_manager \<Rightarrow> notify_manager" where
  "after_in_batch cbs ns s =
     s\<lparr>heap := (heap s)(queue s := heap s (queue s) @ cbs), emitted := emitted s @ ns\<rparr>"

text \<open>
  Calling the callbacks of a list, first to last, each through \<^verbatim>\<open>notifyFn\<close>; a
  callback that throws ends the sequence.
\<close>

fun deliver :: "callback list \<Rightarrow> notify_manager \<Rightarrow> (nat + unit) \<times> notify_manager" where
  "deliver [] s = (Inr (), s)"
| "deliver (cb # cbs) s =
     (case notifyFn cb s of
        (Inl e, s') \<Rightarrow> (Inl e, s')
      | (Inr _, s') \<Rightarrow> deliver cbs s')"

text \<open>
  The array at address \<open>a\<close> is allocated and is no longer (or not) the current queue.
\<close>

definition detached :: "nat \<Rightarrow> notify_manager \<Rightarrow> bool" where
  "detached a s = (queue s < next_addr s \<and> a < next_addr s \<and> a \<noteq> queue s)"

section \<open>The retryer\<close>

subsection \<open>Configuration and state\<close>

datatype network_mode = Online | Always | OfflineFirst

text \<open>\<^verbatim>\<open>CancelOptions\<close>: both flags are optional.\<close>

record cancel_options =
  revert :: "bool option"
  silent :: "bool option"

text \<open>
  What a retryer can reject with: a \<^verbatim>\<open>CancelledError\<close> carrying the two flags, or
  whatever the work function threw or rejected with (an opaque value).
\<close>

datatype err = CancelledError "bool option" "bool option" | Failure nat

datatype retry_value =
    RetryBool bool
  | RetryNumber jsnum
  | RetryFunction "nat \<Rightarrow> err \<Rightarrow> bool"

datatype retry_delay_value =
    DelayNumber jsnum
  | DelayFunction "nat \<Rightarrow> err \<Rightarrow> jsnum"

text \<open>
  \<^verbatim>\<open>RetryerConfig\<close>. The work function \<^verbatim>\<open>fn\<close> and the hooks are not fields
  of the model: how an attempt ends is decided by the environment (see \<open>action\<close>), and
  every point at which a hook is called is recorded in the \<open>trace\<close> (an absent hook is
  skipped by \<^verbatim>\<open>?.\<close> at the same point). The hooks, and the functions given as
  \<^verbatim>\<open>retry\<close> and \<^verbatim>\<open>retryDelay\<close>, are taken to return normally and not to call
  the retryer themselves. \<open>isServer\<close> is the constant of that name imported from
  \<^verbatim>\<open>./utils\<close>.
\<close>

record config =
  retry :: "retry_value option"
  retryDelay :: "retry_delay_value option"
  networkMode :: "network_mode option"
  isServer :: bool

text \<open>
  What is recorded, in order: calls of \<^verbatim>\<open>config.fn\<close>, the settling of an attempt
  as seen by \<^verbatim>\<open>run\<close>'s reactions, calls of the hooks and of \<^verbatim>\<open>sleep\<close>.
\<close>

datatype event =
    FnCalled
  | FnFulfilled nat
  | FnFailed err
  | OnSuccess nat
  | OnError err
  | OnFail nat err
  | OnPause
  | OnContinue
  | Abort
  | Sleep jsnum

datatype settled = Fulfilled nat | Rejected err

text \<open>
  The loop is one promise chain, so exactly one of its reactions is pending at a time.
  \<open>continuation\<close> says what follows a pause: \<^verbatim>\<open>pause().then(run)\<close> at the start,
  or the retry decision for a given error.
\<close>

datatype continuation = StartRun | Retry err

datatype phase =
    Paused continuation
  | Released continuation
  | Resuming continuation
  | InFlight
  | Sleeping jsnum err
  | Stopped

text \<open>
  \<open>Paused\<close>: the promise made by \<^verbatim>\<open>pause\<close> is pending.
  \<open>Released\<close>: \<^verbatim>\<open>continueResolve\<close> has been called, the \<^verbatim>\<open>then\<close> inside
  \<^verbatim>\<open>pause\<close> has not run yet.
  \<open>Resuming\<close>: the reaction that calls \<^verbatim>\<open>run\<close> (or rejects) has not run yet.
  \<open>InFlight\<close>: \<^verbatim>\<open>config.fn\<close> has been called and no reaction to its result has
  run. \<open>Sleeping\<close>: \<^verbatim>\<open>sleep(delay)\<close> is pending. \<open>Stopped\<close>: no reaction of the
  loop is pending.

  The closure variables of \<^verbatim>\<open>createRetryer\<close>, the promise it returns, and the two
  signals it reads (\<^verbatim>\<open>focusManager.isFocused()\<close>,
  \<^verbatim>\<open>onlineManager.isOnline()\<close>). \<open>continueFn\<close> is whether the variable holds a
  function; the function it holds closes over the gate of the current pause.
\<close>

record retryer =
  isRetryCancelled :: bool
  failureCount :: nat
  isResolved :: bool
  continueFn :: bool
  promise :: "settled option"
  phase :: phase
  focused :: bool
  online :: bool
  trace :: "event list"

subsection \<open>The functions of \<^verbatim>\<open>createRetryer\<close>\<close>

text \<open>
  \<^verbatim>\<open>Math.min(1000 * 2 ** failureCount, 30000)\<close>, the argument written \<open>fc\<close>. Once
  \<^verbatim>\<open>2 ** failureCount\<close> overflows to \<^verbatim>\<open>Infinity\<close> the minimum is still 30000.
\<close>

definition defaultRetryDelay :: "nat \<Rightarrow> jsnum" where
  "defaultRetryDelay fc = Fin (min (1000 * 2 ^ fc) 30000)"

definition canFetch :: "network_mode option \<Rightarrow> retryer \<Rightarrow> bool" where
  "canFetch mode s =
     (if (case mode of None \<Rightarrow> Online | Some m \<Rightarrow> m) = Online then online s else True)"

definition shouldPause :: "config \<Rightarrow> retryer \<Rightarrow> bool" where
  "shouldPause cfg s = (\<not> focused s \<or> (networkMode cfg \<noteq> Some Always \<and> \<not> online s))"

definition record_event :: "event \<Rightarrow> retryer \<Rightarrow> retryer" where
  "record_event ev s = s\<lparr>trace := trace s @ [ev]\<rparr>"

text \<open>The resolving functions of a promise do nothing once it is settled.\<close>

definition promiseResolve :: "nat \<Rightarrow> retryer \<Rightarrow> retryer" where
  "promiseResolve v s = (case promise s of None \<Rightarrow> s\<lparr>promise := Some (Fulfilled v)\<rparr> | Some _ \<Rightarrow> s)"

definition promiseReject :: "err \<Rightarrow> retryer \<Rightarrow> retryer" where
  "promiseReject e s = (case promise s of None \<Rightarrow> s\<lparr>promise := Some (Rejected e)\<rparr> | Some _ \<Rightarrow> s)"

text \<open>\<^verbatim>\<open>continueResolve\<close> settles the gate of the current pause, if it is pending.\<close>

definition continueResolve :: "retryer \<Rightarrow> retryer" where
  "continueResolve s = (case phase s of Paused k \<Rightarrow> s\<lparr>phase := Released k\<rparr> | _ \<Rightarrow> s)"

text \<open>
  \<^verbatim>\<open>continueFn?.()\<close>: \<open>None\<close> is \<^verbatim>\<open>undefined\<close> (no function held), otherwise
  the value of \<^verbatim>\<open>canContinue\<close>.
\<close>

definition call_continueFn :: "config \<Rightarrow> retryer \<Rightarrow> bool option \<times> retryer" where
  "call_continueFn cfg s =
     (if continueFn s then
        (let canContinue = (isResolved s \<or> \<not> shouldPause cfg s)
         in (Some canContinue, if canContinue then continueResolve s else s))
      else (None, s))"

definition resolve :: "config \<Rightarrow> nat \<Rightarrow> retryer \<Rightarrow> retryer" where
  "resolve cfg v s =
     (if \<not> isResolved s then
        (let s1 = s\<lparr>isResolved := True\<rparr>;
             s2 = record_event (OnSuccess v) s1;
             s3 = snd (call_continueFn cfg s2)
         in promiseResolve v s3)
      else s)"

definition reject :: "config \<Rightarrow> err \<Rightarrow> retryer \<Rightarrow> retryer" where
  "reject cfg e s =
     (if \<not> isResolved s then
        (let s1 = s\<lparr>isResolved := True\<rparr>;
             s2 = record_event (OnError e) s1;
             s3 = snd (call_continueFn cfg s2)
         in promiseReject e s3)
      else s)"

text \<open>\<^verbatim>\<open>new CancelledError(options)\<close> with \<^verbatim>\<open>options?.revert\<close>, \<^verbatim>\<open>options?.silent\<close>.\<close>

definition newCancelledError :: "cancel_options option \<Rightarrow> err" where
  "newCancelledError options =
     (case options of
        None \<Rightarrow> CancelledError None None
      | Some opts \<Rightarrow> CancelledError (revert opts) (silent opts))"

definition cancel :: "config \<Rightarrow> cancel_options option \<Rightarrow> retryer \<Rightarrow> retryer" where
  "cancel cfg cancelOptions s =
     (if \<not> isResolved s then
        record_event Abort (reject cfg (newCancelledError cancelOptions) s)
      else s)"

definition cancelRetry :: "retryer \<Rightarrow> retryer" where
  "cancelRetry s = s\<lparr>isRetryCancelled := True\<rparr>"

definition continueRetry :: "retryer \<Rightarrow> retryer" where
  "continueRetry s = s\<lparr>isRetryCancelled := False\<rparr>"

text \<open>
  \<^verbatim>\<open>pause\<close>, first half: the executor of the new promise installs
  \<^verbatim>\<open>continueFn\<close> and calls \<^verbatim>\<open>onPause\<close>. The argument says which chain
  waits for the promise.
\<close>

definition pause :: "continuation \<Rightarrow> retryer \<Rightarrow> retryer" where
  "pause k s = record_event OnPause (s\<lparr>continueFn := True, phase := Paused k\<rparr>)"

text \<open>\<^verbatim>\<open>pause\<close>, second half: the \<^verbatim>\<open>then\<close> that runs once the gate is released.\<close>

definition pause_then :: "continuation \<Rightarrow> retryer \<Rightarrow> retryer" where
  "pause_then k s =
     (let s1 = s\<lparr>continueFn := False, phase := Resuming k\<rparr>
      in if \<not> isResolved s1 then record_event OnContinue s1 else s1)"

text \<open>
  \<^verbatim>\<open>run\<close> up to and including the call of \<^verbatim>\<open>config.fn\<close>. A synchronous throw
  becomes \<^verbatim>\<open>Promise.reject(error)\<close>, so either way the result arrives later.
\<close>

definition run :: "retryer \<Rightarrow> retryer" where
  "run s =
     (if isResolved s then s\<lparr>phase := Stopped\<rparr>
      else record_event FnCalled (s\<lparr>phase := InFlight\<rparr>))"

text \<open>\<^verbatim>\<open>.then(resolve)\<close>: the attempt's promise was fulfilled.\<close>

definition on_fulfilled :: "config \<Rightarrow> nat \<Rightarrow> retryer \<Rightarrow> retryer" where
  "on_fulfilled cfg v s = (resolve cfg v (record_event (FnFulfilled v) s))\<lparr>phase := Stopped\<rparr>"

definition retryOrDefault :: "config \<Rightarrow> retry_value" where
  "retryOrDefault cfg =
     (case retry cfg of
        Some r \<Rightarrow> r
      | None \<Rightarrow> RetryNumber (if isServer cfg then Fin 0 else Fin 3))"

definition delay_for :: "config \<Rightarrow> nat \<Rightarrow> err \<Rightarrow> jsnum" where
  "delay_for cfg fc error =
     (case retryDelay cfg of
        None \<Rightarrow> defaultRetryDelay fc
      | Some (DelayFunction f) \<Rightarrow> f fc error
      | Some (DelayNumber d) \<Rightarrow> d)"

definition shouldRetry :: "config \<Rightarrow> nat \<Rightarrow> err \<Rightarrow> bool" where
  "shouldRetry cfg fc error =
     (case retryOrDefault cfg of
        RetryBool b \<Rightarrow> b
      | RetryNumber n \<Rightarrow> js_lt (Fin (real fc)) n
      | RetryFunction f \<Rightarrow> f fc error)"

text \<open>
  \<^verbatim>\<open>.catch((error) => ...)\<close> up to the call of \<^verbatim>\<open>sleep(delay)\<close>: the attempt's
  promise was rejected.
\<close>

definition on_rejected :: "config \<Rightarrow> err \<Rightarrow> retryer \<Rightarrow> retryer" where
  "on_rejected cfg error s0 =
     (let s = record_event (FnFailed error) s0 in
      if isResolved s then s\<lparr>phase := Stopped\<rparr>
      else
        (let delay = delay_for cfg (failureCount s) error in
         if isRetryCancelled s \<or> \<not> shouldRetry cfg (failureCount s) error
         then (reject cfg error s)\<lparr>phase := Stopped\<rparr>
         else
           (let s1 = s\<lparr>failureCount := failureCount s + 1\<rparr>;
                s2 = record_event (OnFail (failureCount s1) error) s1;
                s3 = record_event (Sleep delay) s2
            in s3\<lparr>phase := Sleeping delay error\<rparr>)))"

text \<open>The first \<^verbatim>\<open>then\<close> after \<^verbatim>\<open>sleep(delay)\<close>.\<close>

definition after_sleep :: "config \<Rightarrow> err \<Rightarrow> retryer \<Rightarrow> retryer" where
  "after_sleep cfg error s =
     (if shouldPause cfg s then pause (Retry error) s
      else s\<lparr>phase := Resuming (Retry error)\<rparr>)"

text \<open>
  The last reaction of a chain: \<^verbatim>\<open>run\<close> after the initial pause, or the second
  \<^verbatim>\<open>then\<close> after \<^verbatim>\<open>sleep(delay)\<close>.
\<close>

definition resume :: "config \<Rightarrow> continuation \<Rightarrow> retryer \<Rightarrow> retryer" where
  "resume cfg k s =
     (case k of
        StartRun \<Rightarrow> run s
      | Retry error \<Rightarrow>
          (if isRetryCancelled s then (reject cfg error s)\<lparr>phase := Stopped\<rparr>
           else run s))"

text \<open>
  \<^verbatim>\<open>createRetryer(config)\<close> with the two signals as they are at the time of the
  call.
\<close>

definition createRetryer :: "config \<Rightarrow> bool \<Rightarrow> bool \<Rightarrow> retryer" where
  "createRetryer cfg isFocused isOnline =
     (let s = \<lparr>isRetryCancelled = False, failureCount = 0, isResolved = False,
                continueFn = False, promise = None, phase = Stopped,
                focused = isFocused, online = isOnline, trace = []\<rparr>
      in if canFetch (networkMode cfg) s then run s else pause StartRun s)"

text \<open>
  \<^verbatim>\<open>continue\<close>: returns the retryer's promise or a promise that is already resolved.
\<close>

datatype continue_result = ThePromise | ResolvedPromise

definition continue :: "config \<Rightarrow> retryer \<Rightarrow> continue_result \<times> retryer" where
  "continue cfg s =
     (let (didContinue, s') = call_continueFn cfg s
      in (if didContinue = Some True then ThePromise else ResolvedPromise, s'))"

subsection \<open>Runs\<close>

text \<open>
  Everything that can happen to a retryer: a call of one of the functions it returns, a
  change of a signal, the work function's promise settling (\<open>FnFulfil\<close>, \<open>FnReject\<close>;
  a synchronous throw counts as a rejection), and the pending reaction of the loop running
  (\<open>Tick\<close>: the sleep is over, or a \<^verbatim>\<open>then\<close> whose promise is settled runs). An
  action that has nothing to act on leaves the state as it is. A run is any sequence of
  actions: what the program's reactions do in one step may be followed by any call.
\<close>

datatype action =
    Cancel "cancel_options option"
  | CancelRetry
  | ContinueRetry
  | Continue
  | SetFocused bool
  | SetOnline bool
  | FnFulfil nat
  | FnReject err
  | Tick

fun step :: "config \<Rightarrow> retryer \<Rightarrow> action \<Rightarrow> retryer" where
  "step cfg s (Cancel options) = cancel cfg options s"
| "step cfg s CancelRetry = cancelRetry s"
| "step cfg s ContinueRetry = continueRetry s"
| "step cfg s Continue = snd (continue cfg s)"
| "step cfg s (SetFocused b) = s\<lparr>focused := b\<rparr>"
| "step cfg s (SetOnline b) = s\<lparr>online := b\<rparr>"
| "step cfg s (FnFulfil v) = (if phase s = InFlight then on_fulfilled cfg v s else s)"
| "step cfg s (FnReject e) = (if phase s = InFlight then on_rejected cfg e s else s)"
| "step cfg s Tick =
     (case phase s of
        Sleeping d e \<Rightarrow> after_sleep cfg e s
      | Released k \<Rightarrow> pause_then k s
      | Resuming k \<Rightarrow> resume cfg k s
      | _ \<Rightarrow> s)"

definition run_actions :: "config \<Rightarrow> retryer \<Rightarrow> action list \<Rightarrow> retryer" where
  "run_actions cfg s acts = foldl (step cfg) s acts"

subsection \<open>Reading a trace\<close>

definition calls :: "event list \<Rightarrow> nat" where
  "calls tr = count_list tr FnCalled"

fun is_terminal :: "event \<Rightarrow> bool" where
  "is_terminal (OnSuccess v) = True"
| "is_terminal (OnError e) = True"
| "is_terminal _ = False"

definition terminal_calls :: "event list \<Rightarrow> nat" where
  "terminal_calls tr = length (filter is_terminal tr)"

fun is_failed :: "event \<Rightarrow> bool" where
  "is_failed (FnFailed e) = True"
| "is_failed _ = False"

definition failed_attempts :: "event list \<Rightarrow> nat" where
  "failed_attempts tr = length (filter is_failed tr)"

text \<open>
  Every \<^verbatim>\<open>onFail\<close> in the trace was called with the number of attempts that had
  failed up to then (\<open>k\<close> of them before the trace starts), and that number is at least 1.
\<close>

fun onFail_counts :: "nat \<Rightarrow> event list \<Rightarrow> bool" where
  "onFail_counts k [] = True"
| "onFail_counts k (FnFailed e # tr) = onFail_counts (Suc k) tr"
| "onFail_counts k (OnFail n e # tr) = (n = k \<and> 1 \<le> n \<and> onFail_counts k tr)"
| "onFail_counts k (ev # tr) = onFail_counts k tr"

fun gate_exists :: "phase \<Rightarrow> bool" where
  "gate_exists (Paused k) = True"
| "gate_exists (Released k) = True"
| "gate_exists _ = False"

text \<open>
  What holds of a retryer at every moment of every run: it is resolved exactly when its
  promise is settled and exactly when one terminal hook has been called, once;
  \<^verbatim>\<open>continueFn\<close> is set exactly while a pause is waiting or winding up; and
  \<^verbatim>\<open>abort\<close> has been called at most once, and only on a resolved retryer.
\<close>

definition consistent :: "retryer \<Rightarrow> bool" where
  "consistent s =
     (isResolved s = (promise s \<noteq> None)
      \<and> terminal_calls (trace s) = (if isResolved s then 1 else 0)
      \<and> continueFn s = gate_exists (phase s)
      \<and> count_list (trace s) Abort \<le> terminal_calls (trace s))"

text \<open>
  While a retryer is unresolved its \<open>failureCount\<close> is the number of attempts that have
  failed, and every \<^verbatim>\<open>onFail\<close> so far was called with the right count.
\<close>

definition counted :: "retryer \<Rightarrow> bool" where
  "counted s =
     ((isResolved s \<or> failureCount s = failed_attempts (trace s))
      \<and> onFail_counts 0 (trace s))"

text \<open>
  With a policy that retries at most \<open>n\<close> times: there were never more than \<open>n\<close>
  retries, and never more calls of the work function than failures counted, plus the one
  in flight or the last one.
\<close>

definition within_budget :: "nat \<Rightarrow> retryer \<Rightarrow> bool" where
  "within_budget n s =
     (failureCount s \<le> n
      \<and> calls (trace s) \<le> failureCount s + (if phase s = InFlight \<or> phase s = Stopped then 1 else 0))"

text \<open>
  Actions of a run in which the work function never succeeds and nobody cancels the
  retryer or its retries.
\<close>

fun plain :: "action \<Rightarrow> bool" where
  "plain (Cancel options) = False"
| "plain CancelRetry = False"
| "plain (FnFulfil v) = False"
| "plain _ = True"

text \<open>
  Such a run, under a policy that retries exactly while \<open>failureCount < n\<close>: the retryer
  is resolved only once it has stopped, and then after \<open>n + 1\<close> calls of the work function
  and \<open>n\<close> retries, rejected with the error of a failed attempt.
\<close>

definition on_course :: "nat \<Rightarrow> retryer \<Rightarrow> bool" where
  "on_course n s =
     (\<not> isRetryCancelled s \<and> failureCount s \<le> n
      \<and> (case phase s of
            InFlight \<Rightarrow> \<not> isResolved s \<and> calls (trace s) = failureCount s + 1
          | Stopped \<Rightarrow>
              isResolved s \<and> calls (trace s) = n + 1 \<and> failureCount s = n
              \<and> (\<exists>e. promise s = Some (Rejected e) \<and> FnFailed e \<in> set (trace s))
          | _ \<Rightarrow> \<not> isResolved s \<and> calls (trace s) = failureCount s))"

chapter \<open>Verification\<close>

section \<open>JavaScript numbers\<close>

lemma math_max_not_NaN: "a \<noteq> NaN \<Longrightarrow> b \<noteq> NaN \<Longrightarrow> math_max a b \<noteq> NaN"
  by (cases a; cases b) simp_all

lemma or_zero_number: "c \<noteq> NaN \<Longrightarrow> or_zero (Some c) = c"
  by (cases c) simp_all

lemma math_max_not_below_left: "\<not> js_lt (math_max a b) a"
  by (cases a; cases b) simp_all

lemma math_max_not_below_right: "\<not> js_lt (math_max a b) b"
  by (cases a; cases b) simp_all

lemma js_lt_trans_not: "\<not> js_lt b a \<Longrightarrow> \<not> js_lt c b \<Longrightarrow> b \<noteq> NaN \<Longrightarrow> \<not> js_lt c a"
  by (cases a; cases b; cases c) simp_all

section \<open>Removable\<close>

lemma gcTime_updateGcTime:
  "gcTime (updateGcTime srv q r) =
     Some (math_max (or_zero (gcTime r)) (requestedOrDefault srv q))"
  by (simp add: updateGcTime_def)

lemma updateGcTimes_Nil: "updateGcTimes srv [] r = r"
  by (simp add: updateGcTimes_def)

lemma updateGcTimes_Cons:
  "updateGcTimes srv (q # qs) r = updateGcTimes srv qs (updateGcTime srv q r)"
  by (simp add: updateGcTimes_def)

lemma requestedOrDefault_not_NaN: "q \<noteq> Some NaN \<Longrightarrow> requestedOrDefault srv q \<noteq> NaN"
  by (cases q) (simp_all add: requestedOrDefault_def)

lemma updateGcTimes_max:
  "gcTime r = Some c \<Longrightarrow> c \<noteq> NaN \<Longrightarrow> \<forall>q\<in>set reqs. q \<noteq> Some NaN \<Longrightarrow>
   gcTime (updateGcTimes srv reqs r) =
     Some (foldl math_max c (map (requestedOrDefault srv) reqs))"
proof (induction reqs arbitrary: r c)
  case Nil
  then show ?case by (simp add: updateGcTimes_Nil)
next
  case (Cons q qs)
  let ?c' = "math_max c (requestedOrDefault srv q)"
  have q: "requestedOrDefault srv q \<noteq> NaN"
    using Cons.prems(3) by (simp add: requestedOrDefault_not_NaN)
  have step: "gcTime (updateGcTime srv q r) = Some ?c'"
    using Cons.prems(1,2) by (simp add: gcTime_updateGcTime or_zero_number)
  have "?c' \<noteq> NaN"
    using Cons.prems(2) q by (rule math_max_not_NaN)
  with step Cons.prems(3) Cons.IH [of "updateGcTime srv q r" ?c'] show ?case
    by (simp add: updateGcTimes_Cons)
qed

lemma foldl_math_max_not_NaN:
  "c \<noteq> NaN \<Longrightarrow> \<forall>v\<in>set vs. v \<noteq> NaN \<Longrightarrow> foldl math_max c vs \<noteq> NaN"
  by (induction vs arbitrary: c) (simp_all add: math_max_not_NaN)

lemma foldl_math_max_not_below_start:
  "c \<noteq> NaN \<Longrightarrow> \<forall>v\<in>set vs. v \<noteq> NaN \<Longrightarrow> \<not> js_lt (foldl math_max c vs) c"
proof (induction vs arbitrary: c)
  case Nil
  then show ?case by (cases c) simp_all
next
  case (Cons v vs)
  have m: "math_max c v \<noteq> NaN"
    using Cons.prems by (simp add: math_max_not_NaN)
  have "\<not> js_lt (foldl math_max (math_max c v) vs) (math_max c v)"
    using Cons.IH [OF m] Cons.prems(2) by simp
  moreover have "\<not> js_lt (math_max c v) c"
    by (rule math_max_not_below_left)
  ultimately show ?case
    using m js_lt_trans_not [of "math_max c v" c "foldl math_max (math_max c v) vs"] by simp
qed

lemma foldl_math_max_not_below_member:
  "c \<noteq> NaN \<Longrightarrow> \<forall>v\<in>set vs. v \<noteq> NaN \<Longrightarrow> w \<in> set vs \<Longrightarrow> \<not> js_lt (foldl math_max c vs) w"
proof (induction vs arbitrary: c)
  case Nil
  then show ?case by simp
next
  case (Cons v vs)
  have m: "math_max c v \<noteq> NaN"
    using Cons.prems by (simp add: math_max_not_NaN)
  show ?case
  proof (cases "w = v")
    case True
    have "\<not> js_lt (foldl math_max (math_max c v) vs) (math_max c v)"
      using foldl_math_max_not_below_start [OF m] Cons.prems(2) by simp
    moreover have "\<not> js_lt (math_max c v) v"
      by (rule math_max_not_below_right)
    ultimately show ?thesis
      using True m js_lt_trans_not [of "math_max c v" v "foldl math_max (math_max c v) vs"]
      by simp
  next
    case False
    with Cons.prems have "w \<in> set vs" by simp
    with Cons.IH [OF m] Cons.prems(2) show ?thesis by simp
  qed
qed

text \<open>
  Claim C3, as stated, fails where \<^verbatim>\<open>NaN\<close> comes in, a value of the parameter's type
  \<^verbatim>\<open>number | undefined\<close>. On a fresh instance the requests 5, \<^verbatim>\<open>NaN\<close>, 2 leave
  2: the second call makes the time \<^verbatim>\<open>NaN\<close>, which the third reads as 0, so the time
  ends below the 5 it had and is not the maximum of the requests. And at a current time
  \<^verbatim>\<open>NaN\<close> the request 5 leaves 5, which is not \<^verbatim>\<open>Math.max(NaN, 5)\<close>.
\<close>

theorem updateGcTime_NaN_loses_maximum:
  "gcTime (updateGcTimes False [Some (Fin 5)] \<lparr>gcTime = None, gcTimeout = None\<rparr>) = Some (Fin 5)
   \<and> gcTime (updateGcTimes False [Some (Fin 5), Some NaN] \<lparr>gcTime = None, gcTimeout = None\<rparr>)
       = Some NaN
   \<and> gcTime (updateGcTimes False [Some (Fin 5), Some NaN, Some (Fin 2)]
        \<lparr>gcTime = None, gcTimeout = None\<rparr>) = Some (Fin 2)
   \<and> js_lt (Fin 2) (Fin 5)
   \<and> gcTime (updateGcTime False (Some (Fin 5)) \<lparr>gcTime = Some NaN, gcTimeout = None\<rparr>)
       = Some (Fin 5)
   \<and> gcTime (updateGcTime False (Some (Fin 5)) \<lparr>gcTime = Some NaN, gcTimeout = None\<rparr>)
       \<noteq> Some (math_max NaN (Fin 5))"
  by (simp add: updateGcTimes_def updateGcTime_def requestedOrDefault_def)

text \<open>
  Claim C3, amended. Whenever the current time is a number (any finite value or
  infinity, not \<^verbatim>\<open>NaN\<close>), a call of \<^verbatim>\<open>updateGcTime\<close> sets it to the maximum of
  the current time and the request, an omitted request counting as \<^verbatim>\<open>Infinity\<close> on
  the server and as 300000 ms otherwise; the new time is never below the old one. A
  sequence of requests none of which is \<^verbatim>\<open>NaN\<close> leaves the maximum of the start value
  and all requests, which is below neither the start value nor any request. A time that
  is not set yet or is \<^verbatim>\<open>NaN\<close> counts as 0 in the next call, so on a fresh instance
  the requests 5, 2, 10 leave 10; a request \<^verbatim>\<open>NaN\<close> makes the time \<^verbatim>\<open>NaN\<close>.
\<close>

theorem updateGcTime_monotone_max:
  assumes "gcTime r = Some c" and "c \<noteq> NaN" and "\<forall>q\<in>set reqs. q \<noteq> Some NaN"
  shows "gcTime (updateGcTime srv q r) = Some (math_max c (requestedOrDefault srv q))
    \<and> requestedOrDefault True None = PosInf
    \<and> requestedOrDefault False None = Fin 300000
    \<and> requestedOrDefault srv (Some n) = n
    \<and> (\<forall>c'. gcTime (updateGcTime srv q r) = Some c' \<longrightarrow> \<not> js_lt c' c)
    \<and> gcTime (updateGcTimes srv reqs r) =
        Some (foldl math_max c (map (requestedOrDefault srv) reqs))
    \<and> \<not> js_lt (foldl math_max c (map (requestedOrDefault srv) reqs)) c
    \<and> (\<forall>q'\<in>set reqs.
          \<not> js_lt (foldl math_max c (map (requestedOrDefault srv) reqs))
                (requestedOrDefault srv q'))
    \<and> (\<forall>r0. gcTime r0 = None \<longrightarrow>
          gcTime (updateGcTime srv q r0) = Some (math_max (Fin 0) (requestedOrDefault srv q))
          \<and> gcTime (updateGcTimes srv [Some (Fin 5), Some (Fin 2), Some (Fin 10)] r0)
              = Some (Fin 10))
    \<and> (\<forall>r1. gcTime r1 = Some NaN \<longrightarrow>
          gcTime (updateGcTime srv q r1) = Some (math_max (Fin 0) (requestedOrDefault srv q)))
    \<and> (\<forall>r2. gcTime (updateGcTime srv (Some NaN) r2) = Some NaN)"
proof -
  have vs: "\<forall>v\<in>set (map (requestedOrDefault srv) reqs). v \<noteq> NaN"
    using assms(3) by (simp add: requestedOrDefault_not_NaN)
  have one: "gcTime (updateGcTime srv q r) = Some (math_max c (requestedOrDefault srv q))"
    using assms(1,2) by (simp add: gcTime_updateGcTime or_zero_number)
  have mono: "\<forall>c'. gcTime (updateGcTime srv q r) = Some c' \<longrightarrow> \<not> js_lt c' c"
    using one by (simp add: math_max_not_below_left)
  have many: "gcTime (updateGcTimes srv reqs r) =
      Some (foldl math_max c (map (requestedOrDefault srv) reqs))"
    using assms by (rule updateGcTimes_max)
  have above_start: "\<not> js_lt (foldl math_max c (map (requestedOrDefault srv) reqs)) c"
    using assms(2) vs by (rule foldl_math_max_not_below_start)
  have above_each: "\<forall>q'\<in>set reqs.
      \<not> js_lt (foldl math_max c (map (requestedOrDefault srv) reqs)) (requestedOrDefault srv q')"
    using foldl_math_max_not_below_member [OF assms(2) vs] by simp
  have example: "\<forall>r0. gcTime r0 = None \<longrightarrow>
      gcTime (updateGcTime srv q r0) = Some (math_max (Fin 0) (requestedOrDefault srv q))
      \<and> gcTime (updateGcTimes srv [Some (Fin 5), Some (Fin 2), Some (Fin 10)] r0)
          = Some (Fin 10)"
    by (simp add: updateGcTimes_def updateGcTime_def requestedOrDefault_def)
  have defaults: "requestedOrDefault True None = PosInf"
    "requestedOrDefault False None = Fin 300000" "requestedOrDefault srv (Some n) = n"
    by (simp_all add: requestedOrDefault_def)
  have at_nan: "\<forall>r1. gcTime r1 = Some NaN \<longrightarrow>
      gcTime (updateGcTime srv q r1) = Some (math_max (Fin 0) (requestedOrDefault srv q))"
    by (simp add: updateGcTime_def)
  have to_nan: "\<forall>r2. gcTime (updateGcTime srv (Some NaN) r2) = Some NaN"
  proof
    fix r2
    show "gcTime (updateGcTime srv (Some NaN) r2) = Some NaN"
      by (cases "or_zero (gcTime r2)") (simp_all add: updateGcTime_def requestedOrDefault_def)
  qed
  from one defaults mono many above_start above_each example at_nan to_nan show ?thesis
    by blast
qed

theorem updateGcTime_monotone_max_witness:
  "gcTime (updateGcTime False None \<lparr>gcTime = Some (Fin 3), gcTimeout = None\<rparr>) = Some (Fin 300000)
   \<and> gcTime (updateGcTimes False [Some (Fin 5), Some (Fin 2), Some (Fin 10)]
        \<lparr>gcTime = Some (Fin 3), gcTimeout = None\<rparr>) = Some (Fin 10)
   \<and> gcTime (updateGcTimes False [Some (Fin 5), Some (Fin 2), Some (Fin 10)]
        \<lparr>gcTime = None, gcTimeout = None\<rparr>) = Some (Fin 10)"
proof -
  let ?r = "\<lparr>gcTime = Some (Fin 3), gcTimeout = None\<rparr>"
  have h1: "gcTime ?r = Some (Fin 3)" by simp
  have h2: "Fin 3 \<noteq> NaN" by simp
  have h3: "\<forall>q\<in>set [Some (Fin 5), Some (Fin 2), Some (Fin 10)]. q \<noteq> Some NaN" by simp
  show ?thesis
    using updateGcTime_monotone_max [OF h1 h2 h3, where srv = False and q = None]
    by (simp add: requestedOrDefault_def)
qed

section \<open>Subscribable\<close>

lemma set_delete_idem: "set_delete l (set_delete l ls) = set_delete l ls"
  by (simp add: set_delete_def)

lemma set_delete_set_add_fresh: "l \<notin> set ls \<Longrightarrow> set_delete l (set_add l ls) = ls"
  by (induction ls) (auto simp: set_delete_def set_add_def)

lemma count_list_replicate_same: "count_list (replicate n x) x = n"
  by (induction n) simp_all

lemma hooks_unsubscribe_funpow:
  "hooks ((unsubscribe l ^^ n) s) = hooks s @ replicate n OnUnsubscribe"
proof (induction n)
  case 0
  then show ?case by simp
next
  case (Suc n)
  then show ?case
    by (simp add: unsubscribe_def replicate_append_same)
qed

lemma listeners_unsubscribe_funpow:
  "listeners ((unsubscribe l ^^ Suc n) s) = set_delete l (listeners s)"
proof (induction n)
  case 0
  then show ?case by (simp add: unsubscribe_def)
next
  case (Suc n)
  have "listeners ((unsubscribe l ^^ Suc (Suc n)) s) =
      set_delete l (listeners ((unsubscribe l ^^ Suc n) s))"
    by (simp add: unsubscribe_def)
  with Suc show ?case by (simp add: set_delete_idem)
qed

text \<open>
  Claim C4, as stated, fails: the handle of a listener subscribed to a new registry,
  invoked twice, fires \<^verbatim>\<open>onUnsubscribe\<close> twice, not once.
\<close>

theorem unsubscribe_twice_fires_twice:
  "count_list
     (hooks (fst (subscribe (0::nat) new_subscribable)
              (fst (subscribe 0 new_subscribable) (snd (subscribe 0 new_subscribable)))))
     OnUnsubscribe = 2
   \<and> count_list
     (hooks (fst (subscribe (0::nat) new_subscribable)
              (fst (subscribe 0 new_subscribable) (snd (subscribe 0 new_subscribable)))))
     OnUnsubscribe \<noteq> 1"
  by (simp add: subscribe_def unsubscribe_def new_subscribable_def)

text \<open>
  Claim C4, amended. The handle returned by \<^verbatim>\<open>subscribe\<close> keeps no record of having
  been called. Every invocation, in whatever state the registry is, deletes the listener
  if it is present and calls \<^verbatim>\<open>onUnsubscribe\<close>. So an invocation that finds the
  listener absent leaves the listener set unchanged, and any number of invocations in a row
  leave the set as the first one left it (empty after \<^verbatim>\<open>subscribe\<close> on an empty
  registry); but \<open>n\<close> invocations fire \<^verbatim>\<open>onUnsubscribe\<close> \<open>n\<close> times, and once the same
  listener has been subscribed again, the old handle removes it again.
\<close>

theorem unsubscribe_handle_repeated:
  "listeners (fst (subscribe l s) t) = filter (\<lambda>x. x \<noteq> l) (listeners t)
   \<and> hooks (fst (subscribe l s) t) = hooks t @ [OnUnsubscribe]
   \<and> (l \<notin> set (listeners t) \<longrightarrow> listeners (fst (subscribe l s) t) = listeners t)
   \<and> l \<notin> set (listeners (fst (subscribe l s) t))
   \<and> listeners ((fst (subscribe l s) ^^ Suc n) t) = listeners (fst (subscribe l s) t)
   \<and> hooks ((fst (subscribe l s) ^^ n) t) = hooks t @ replicate n OnUnsubscribe
   \<and> listeners (fst (subscribe l new_subscribable) (snd (subscribe l new_subscribable))) = []
   \<and> count_list (hooks ((fst (subscribe l new_subscribable) ^^ n)
        (snd (subscribe l new_subscribable)))) OnUnsubscribe = n
   \<and> l \<in> set (listeners (snd (subscribe l t)))
   \<and> l \<notin> set (listeners (fst (subscribe l s) (snd (subscribe l t))))"
proof -
  have f: "fst (subscribe l s) = unsubscribe l" for s :: "'a subscribable"
    by (simp add: subscribe_def)
  have d: "listeners (unsubscribe l t) = filter (\<lambda>x. x \<noteq> l) (listeners t)" for t
    by (simp add: unsubscribe_def set_delete_def)
  have h: "hooks (unsubscribe l t) = hooks t @ [OnUnsubscribe]"
    by (simp add: unsubscribe_def)
  have absent: "l \<notin> set (listeners t) \<longrightarrow> listeners (unsubscribe l t) = listeners t"
  proof
    assume "l \<notin> set (listeners t)"
    then have "filter (\<lambda>x. x \<noteq> l) (listeners t) = listeners t"
      by (induction "listeners t") (auto simp: filter_id_conv)
    then show "listeners (unsubscribe l t) = listeners t"
      by (simp add: d)
  qed
  have gone: "l \<notin> set (listeners (unsubscribe l t))" for t
    by (simp add: d)
  have row: "listeners ((unsubscribe l ^^ Suc n) t) = listeners (unsubscribe l t)"
    using listeners_unsubscribe_funpow [where l = l and n = n and s = t]
    by (simp add: unsubscribe_def)
  have hs: "hooks ((unsubscribe l ^^ n) t) = hooks t @ replicate n OnUnsubscribe"
    by (rule hooks_unsubscribe_funpow)
  have l2: "listeners (unsubscribe l (snd (subscribe l new_subscribable))) = ([]::'a list)"
    by (simp add: subscribe_def unsubscribe_def new_subscribable_def set_add_def set_delete_def)
  have h2: "count_list (hooks ((unsubscribe l ^^ n) (snd (subscribe l new_subscribable))))
      OnUnsubscribe = n"
    by (simp add: hooks_unsubscribe_funpow subscribe_def new_subscribable_def
        count_list_replicate_same)
  have again: "l \<in> set (listeners (snd (subscribe l t)))"
    by (simp add: subscribe_def set_add_def)
  from d [of t] h absent gone [of t] row hs l2 h2 again gone [of "snd (subscribe l t)"]
  show ?thesis
    unfolding f by (intro conjI)
qed

theorem unsubscribe_handle_repeated_witness:
  "listeners (fst (subscribe (0::nat) new_subscribable) \<lparr>listeners = [1], hooks = []\<rparr>) = [1]
   \<and> hooks (fst (subscribe (0::nat) new_subscribable) \<lparr>listeners = [1], hooks = []\<rparr>)
       = [OnUnsubscribe]
   \<and> listeners (snd (subscribe (0::nat) \<lparr>listeners = [], hooks = []\<rparr>)) = [0]
   \<and> listeners (fst (subscribe (0::nat) new_subscribable)
        (snd (subscribe 0 \<lparr>listeners = [], hooks = []\<rparr>))) = []"
proof -
  let ?one = "\<lparr>listeners = [1::nat], hooks = []\<rparr>"
  let ?none = "\<lparr>listeners = ([]::nat list), hooks = []\<rparr>"
  note th = unsubscribe_handle_repeated [of 0 new_subscribable]
  have a: "(0::nat) \<notin> set (listeners ?one)" by simp
  from th [of ?one] a have "listeners (fst (subscribe 0 new_subscribable) ?one) = listeners ?one"
    by blast
  moreover from th [of ?one]
  have "hooks (fst (subscribe 0 new_subscribable) ?one) = hooks ?one @ [OnUnsubscribe]"
    by blast
  moreover from th [of "snd (subscribe 0 ?none)"]
  have "listeners (fst (subscribe 0 new_subscribable) (snd (subscribe 0 ?none)))
      = filter (\<lambda>x. x \<noteq> 0) (listeners (snd (subscribe 0 ?none)))"
    by blast
  moreover have "listeners (snd (subscribe (0::nat) ?none)) = [0]"
    by (simp add: subscribe_def set_add_def)
  ultimately show ?thesis
    by simp
qed

text \<open>
  Claim C5, as stated, fails: subscribing a listener that is already present changes
  neither the listener set nor whether listeners exist, and \<^verbatim>\<open>onSubscribe\<close>
  fires all the same; the handle of one of two listeners leaves a listener behind, and
  \<^verbatim>\<open>onUnsubscribe\<close> fires all the same.
\<close>

theorem hooks_fire_without_transition:
  "hasListeners (snd (subscribe (0::nat) new_subscribable))
   \<and> listeners (snd (subscribe 0 (snd (subscribe (0::nat) new_subscribable))))
       = listeners (snd (subscribe (0::nat) new_subscribable))
   \<and> hooks (snd (subscribe 0 (snd (subscribe (0::nat) new_subscribable))))
       = hooks (snd (subscribe (0::nat) new_subscribable)) @ [OnSubscribe]
   \<and> hasListeners (unsubscribe 1 (snd (subscribe 1 (snd (subscribe (0::nat) new_subscribable)))))
   \<and> hooks (unsubscribe 1 (snd (subscribe 1 (snd (subscribe (0::nat) new_subscribable)))))
       = [OnSubscribe, OnSubscribe, OnUnsubscribe]"
  by (simp add: subscribe_def unsubscribe_def new_subscribable_def hasListeners_def
      set_add_def set_delete_def)

text \<open>
  Claim C5, amended. For every registry, subscribing a listener that is already present
  leaves the listener set unchanged, so the set never holds a listener twice; the
  \<^verbatim>\<open>onSubscribe\<close> hook is invoked by every \<^verbatim>\<open>subscribe\<close> call and the
  \<^verbatim>\<open>onUnsubscribe\<close> hook by every invocation of a handle, whether or not the
  call changes whether listeners exist.
\<close>

theorem subscribe_idempotent_hooks_every_call:
  "(l \<in> set (listeners s) \<longrightarrow> listeners (snd (subscribe l s)) = listeners s)
   \<and> (distinct (listeners s) \<longrightarrow> distinct (listeners (snd (subscribe l s))))
   \<and> set (listeners (snd (subscribe l s))) = insert l (set (listeners s))
   \<and> hooks (snd (subscribe l s)) = hooks s @ [OnSubscribe]
   \<and> hooks (fst (subscribe l s) s') = hooks s' @ [OnUnsubscribe]
   \<and> hasListeners s = (listeners s \<noteq> [])"
  by (auto simp: subscribe_def unsubscribe_def set_add_def hasListeners_def)

theorem subscribe_idempotent_hooks_every_call_witness:
  "listeners (snd (subscribe (7::nat) \<lparr>listeners = [7, 8], hooks = []\<rparr>)) = [7, 8]
   \<and> distinct (listeners (snd (subscribe (9::nat) \<lparr>listeners = [7, 8], hooks = []\<rparr>)))
   \<and> hooks (snd (subscribe (7::nat) \<lparr>listeners = [7, 8], hooks = []\<rparr>)) = [OnSubscribe]"
proof -
  let ?s = "\<lparr>listeners = [7::nat, 8], hooks = []\<rparr>"
  have a: "(7::nat) \<in> set (listeners ?s)" by simp
  have d: "distinct (listeners ?s)" by simp
  from subscribe_idempotent_hooks_every_call [of 7 ?s ?s] a
  have "listeners (snd (subscribe 7 ?s)) = listeners ?s
      \<and> hooks (snd (subscribe 7 ?s)) = hooks ?s @ [OnSubscribe]"
    by blast
  moreover from subscribe_idempotent_hooks_every_call [of 9 ?s ?s] d
  have "distinct (listeners (snd (subscribe 9 ?s)))"
    by blast
  ultimately show ?thesis by simp
qed

section \<open>The notify manager\<close>

declare forEach_from.simps [simp del]

lemma after_in_batch_Nil: "after_in_batch [] [] s = s"
  by (simp add: after_in_batch_def)

lemma after_in_batch_twice:
  "after_in_batch cbs' ns' (after_in_batch cbs ns s) = after_in_batch (cbs @ cbs') (ns @ ns') s"
  by (simp add: after_in_batch_def)

lemma transactions_after_in_batch: "transactions (after_in_batch cbs ns s) = transactions s"
  by (simp add: after_in_batch_def)

lemma after_in_batch_transactions_update:
  "(after_in_batch cbs ns (s\<lparr>transactions := n\<rparr>))\<lparr>transactions := m\<rparr>
     = after_in_batch cbs ns (s\<lparr>transactions := m\<rparr>)"
  by (simp add: after_in_batch_def)

lemma exec_in_batch:
  "0 < transactions s \<Longrightarrow>
     exec c s = (completion c, after_in_batch (scheduled_by c) (emitted_by c) s)"
  "0 < transactions s \<Longrightarrow>
     exec_all cs s =
       (completion_all cs, after_in_batch (scheduled_by_all cs) (emitted_by_all cs) s)"
proof (induction c s and cs s rule: exec_exec_all.induct)
  case (1 n s)
  then show ?case by (simp add: after_in_batch_def)
next
  case (2 e s)
  then show ?case by (simp add: after_in_batch_def)
next
  case (3 cb s)
  then show ?case by (simp add: after_in_batch_def schedule_def push_def)
next
  case (4 body s)
  let ?s1 = "s\<lparr>transactions := transactions s + 1\<rparr>"
  have "0 < transactions ?s1" using "4.prems" by simp
  then have "exec_all body ?s1 =
      (completion_all body,
       after_in_batch (scheduled_by_all body) (emitted_by_all body) ?s1)"
    by (rule "4.IH")
  then show ?case
    using "4.prems"
    by (simp add: batch_def transactions_after_in_batch after_in_batch_transactions_update)
next
  case (5 body s)
  then show ?case by simp
next
  case (6 s)
  then show ?case by (simp add: after_in_batch_Nil)
next
  case (7 c cs s)
  show ?case
  proof (cases "completion c")
    case (Inl e)
    with 7 show ?thesis by simp
  next
    case (Inr u)
    have "0 < transactions (after_in_batch (scheduled_by c) (emitted_by c) s)"
      using "7.prems" by (simp add: transactions_after_in_batch)
    with 7 Inr show ?thesis
      by (simp add: after_in_batch_twice)
  qed
qed

lemma batch_top_level:
  assumes "quiescent s"
  shows "batch (exec_all body) s =
    (completion_all body,
     flush (s\<lparr>heap := (heap s)(queue s := scheduled_by_all body),
             emitted := emitted s @ emitted_by_all body\<rparr>))"
proof -
  let ?s1 = "s\<lparr>transactions := 1\<rparr>"
  have t: "transactions s = 0" and q: "heap s (queue s) = []"
    using assms by (simp_all add: quiescent_def)
  have e: "exec_all body ?s1 =
      (completion_all body,
       after_in_batch (scheduled_by_all body) (emitted_by_all body) ?s1)"
    by (rule exec_in_batch(2)) simp
  have same: "s\<lparr>heap := h, emitted := ns, transactions := 0\<rparr> = s\<lparr>heap := h, emitted := ns\<rparr>"
    for h ns
    using t by (cases s) simp
  show ?thesis
    using t q by (simp add: batch_def e after_in_batch_def same)
qed

lemma flush_frame:
  "detached a s \<Longrightarrow> detached a (flush s) \<and> heap (flush s) a = heap s a"
  by (simp add: flush_def detached_def scheduleFn_def Let_def)

lemma schedule_frame:
  "detached a s \<Longrightarrow> detached a (schedule cb s) \<and> heap (schedule cb s) a = heap s a"
  by (simp add: schedule_def push_def detached_def scheduleFn_def)

lemma exec_frame:
  "detached a s \<Longrightarrow> detached a (snd (exec c s)) \<and> heap (snd (exec c s)) a = heap s a"
  "detached a s \<Longrightarrow>
     detached a (snd (exec_all cs s)) \<and> heap (snd (exec_all cs s)) a = heap s a"
proof (induction c s and cs s rule: exec_exec_all.induct)
  case (1 n s)
  then show ?case by (simp add: detached_def)
next
  case (2 e s)
  then show ?case by simp
next
  case (3 cb s)
  then show ?case by (simp add: schedule_frame)
next
  case (4 body s)
  let ?s1 = "s\<lparr>transactions := transactions s + 1\<rparr>"
  let ?s2 = "snd (exec_all body ?s1)"
  define s3 where "s3 = ?s2\<lparr>transactions := transactions ?s2 - 1\<rparr>"
  have "detached a ?s1" using "4.prems" by (simp add: detached_def)
  then have s2: "detached a ?s2 \<and> heap ?s2 a = heap ?s1 a" by (rule "4.IH")
  then have s3: "detached a s3" "heap s3 a = heap s a"
    by (simp_all add: s3_def detached_def)
  have "snd (batch (exec_all body) s) = (if transactions s3 = 0 then flush s3 else s3)"
    unfolding s3_def by (simp add: batch_def split_beta Let_def)
  with s3 flush_frame [OF s3(1)] show ?case by simp
next
  case (5 body s)
  then show ?case by simp
next
  case (6 s)
  then show ?case by simp
next
  case (7 c cs s)
  show ?case
  proof (cases "exec c s")
    case (Pair r s')
    with "7.IH"(1) [OF "7.prems"] have s': "detached a s' \<and> heap s' a = heap s a" by simp
    show ?thesis
    proof (cases r)
      case (Inl e)
      with Pair s' show ?thesis by simp
    next
      case (Inr u)
      with Pair s' "7.IH"(2) [of r s' u] show ?thesis by simp
    qed
  qed
qed

lemma notifyFn_frame:
  "detached a s \<Longrightarrow> detached a (snd (notifyFn cb s)) \<and> heap (snd (notifyFn cb s)) a = heap s a"
  by (simp add: notifyFn_def exec_frame(2))

lemma forEach_from_deliver:
  "detached a s \<Longrightarrow> len = length (heap s a) \<Longrightarrow>
     forEach_from a i len s = deliver (drop i (heap s a)) s"
proof (induction a i len s rule: forEach_from.induct)
  case (1 a i len s)
  show ?case
  proof (cases "i < len")
    case False
    with "1.prems" show ?thesis by (simp add: forEach_from.simps)
  next
    case True
    with "1.prems" have i: "i < length (heap s a)" by simp
    then have d: "drop i (heap s a) = heap s a ! i # drop (Suc i) (heap s a)"
      by (simp add: Cons_nth_drop_Suc)
    show ?thesis
    proof (cases "notifyFn (heap s a ! i) s")
      case (Pair r s')
      from notifyFn_frame [OF "1.prems"(1), of "heap s a ! i"] Pair
      have s': "detached a s'" "heap s' a = heap s a" by simp_all
      show ?thesis
      proof (cases r)
        case (Inl e)
        with Pair True i d show ?thesis by (simp add: forEach_from.simps)
      next
        case (Inr u)
        have "forEach_from a (Suc i) len s' = deliver (drop (Suc i) (heap s' a)) s'"
          using "1.IH"(1) [OF True i Pair [symmetric] Inr s'(1)] "1.prems"(2) s'(2) by simp
        with Pair Inr True i d s'(2) show ?thesis
          by (simp add: forEach_from.simps [of a i])
      qed
    qed
  qed
qed

lemma forEach_deliver: "detached a s \<Longrightarrow> forEach a s = deliver (heap s a) s"
  by (simp add: forEach_def forEach_from_deliver)

lemma deliver_frame:
  "detached a s \<Longrightarrow>
     detached a (snd (deliver cbs s)) \<and> heap (snd (deliver cbs s)) a = heap s a"
proof (induction cbs arbitrary: s)
  case Nil
  then show ?case by simp
next
  case (Cons cb cbs)
  show ?case
  proof (cases "notifyFn cb s")
    case (Pair r s')
    from notifyFn_frame [OF Cons.prems, of cb] Pair
    have s': "detached a s'" "heap s' a = heap s a" by simp_all
    show ?thesis
    proof (cases r)
      case (Inl e)
      with Pair s' show ?thesis by simp
    next
      case (Inr u)
      with Pair s' Cons.IH [OF s'(1)] show ?thesis by simp
    qed
  qed
qed

lemma quiescent_flush_result:
  assumes "quiescent s"
  shows "quiescent (flush (s\<lparr>heap := (heap s)(queue s := cbs), emitted := ns\<rparr>))"
  using assms by (simp add: quiescent_def flush_def scheduleFn_def Let_def)

lemma quiescent_exec:
  "quiescent s \<Longrightarrow> quiescent (snd (exec c s))"
  "quiescent s \<Longrightarrow> quiescent (snd (exec_all cs s))"
proof (induction c s and cs s rule: exec_exec_all.induct)
  case (1 n s)
  then show ?case by (simp add: quiescent_def)
next
  case (2 e s)
  then show ?case by simp
next
  case (3 cb s)
  then show ?case by (simp add: quiescent_def schedule_def scheduleFn_def)
next
  case (4 body s)
  then show ?case by (simp add: batch_top_level quiescent_flush_result)
next
  case (5 body s)
  then show ?case by simp
next
  case (6 s)
  then show ?case by simp
next
  case (7 c cs s)
  show ?case
  proof (cases "exec c s")
    case (Pair r s')
    with "7.IH"(1) [OF "7.prems"] have s': "quiescent s'" by simp
    show ?thesis
    proof (cases r)
      case (Inl e)
      with Pair s' show ?thesis by simp
    next
      case (Inr u)
      with Pair s' "7.IH"(2) [of r s' u] show ?thesis by simp
    qed
  qed
qed

lemma quiescent_deliver: "quiescent s \<Longrightarrow> quiescent (snd (deliver cbs s))"
proof (induction cbs arbitrary: s)
  case Nil
  then show ?case by simp
next
  case (Cons cb cbs)
  show ?case
  proof (cases "notifyFn cb s")
    case (Pair r s')
    from quiescent_exec(2) [OF Cons.prems, of cb] Pair
    have s': "quiescent s'" by (simp add: notifyFn_def)
    show ?thesis
    proof (cases r)
      case (Inl e)
      with Pair s' show ?thesis by simp
    next
      case (Inr u)
      with Pair s' Cons.IH [OF s'] show ?thesis by simp
    qed
  qed
qed

lemma fst_batch: "fst (batch f s) = fst (f (s\<lparr>transactions := transactions s + 1\<rparr>))"
  by (simp add: batch_def split_beta Let_def)

lemma transactions_flush: "transactions (flush s) = transactions s"
  by (simp add: flush_def scheduleFn_def Let_def)

lemma transactions_batch:
  "transactions (snd (batch f s)) =
     transactions (snd (f (s\<lparr>transactions := transactions s + 1\<rparr>))) - 1"
  by (simp add: batch_def split_beta Let_def transactions_flush)

lemma nested_batch_no_flush:
  assumes "0 < transactions s"
  shows "timers (snd (exec (Batch body) s)) = timers s
    \<and> queue (snd (exec (Batch body) s)) = queue s
    \<and> transactions (snd (exec (Batch body) s)) = transactions s
    \<and> heap (snd (exec (Batch body) s)) (queue s) = heap s (queue s) @ scheduled_by_all body"
  using exec_in_batch(1) [OF assms, of "Batch body"] by (simp add: after_in_batch_def)

text \<open>
  Claim C6. \<^verbatim>\<open>batch(fn)\<close> runs \<^verbatim>\<open>fn\<close> with the depth counter incremented,
  decrements it again whether \<^verbatim>\<open>fn\<close> returns or throws, and passes on the value or
  the exception of \<^verbatim>\<open>fn\<close>. For every \<^verbatim>\<open>fn\<close> made of effects, throws,
  \<^verbatim>\<open>schedule\<close> calls, try/catch and further \<^verbatim>\<open>batch\<close> calls nested to any
  depth, a \<^verbatim>\<open>batch\<close> entered at depth zero ends at depth zero, hands nothing to the
  scheduler while it runs, and on exit hands over exactly one flush holding every callback
  scheduled inside, in order (none if nothing was scheduled), also when an inner
  \<^verbatim>\<open>fn\<close> throws; a \<^verbatim>\<open>batch\<close> entered at a positive depth flushes nothing.
\<close>

theorem batch_reentrant_exception_safe:
  assumes "quiescent s"
  shows "fst (batch f s) = fst (f (s\<lparr>transactions := transactions s + 1\<rparr>))
    \<and> transactions (snd (batch f s))
        = transactions (snd (f (s\<lparr>transactions := transactions s + 1\<rparr>))) - 1
    \<and> fst (batch (exec_all body) s) = completion_all body
    \<and> transactions (snd (batch (exec_all body) s)) = 0
    \<and> timers (snd (batch (exec_all body) s))
        = timers s @ (if scheduled_by_all body = [] then [] else [FlushTask (queue s)])
    \<and> heap (snd (batch (exec_all body) s)) (queue s) = scheduled_by_all body
    \<and> emitted (snd (batch (exec_all body) s)) = emitted s @ emitted_by_all body
    \<and> quiescent (snd (batch (exec_all body) s))
    \<and> (\<forall>t inner. 0 < transactions t \<longrightarrow>
          timers (snd (exec (Batch inner) t)) = timers t
          \<and> transactions (snd (exec (Batch inner) t)) = transactions t
          \<and> heap (snd (exec (Batch inner) t)) (queue t)
              = heap t (queue t) @ scheduled_by_all inner)"
proof -
  let ?s' = "snd (batch (exec_all body) s)"
  have t: "transactions s = 0" and q: "queue s \<noteq> next_addr s"
    using assms by (simp_all add: quiescent_def)
  have top: "batch (exec_all body) s =
      (completion_all body,
       flush (s\<lparr>heap := (heap s)(queue s := scheduled_by_all body),
               emitted := emitted s @ emitted_by_all body\<rparr>))"
    using assms by (rule batch_top_level)
  have r: "fst (batch (exec_all body) s) = completion_all body"
    by (simp add: top)
  have d: "transactions ?s' = 0"
    using t by (simp add: top transactions_flush)
  have ts: "timers ?s' =
      timers s @ (if scheduled_by_all body = [] then [] else [FlushTask (queue s)])"
    using q by (simp add: top flush_def scheduleFn_def Let_def)
  have h: "heap ?s' (queue s) = scheduled_by_all body"
    using q by (simp add: top flush_def scheduleFn_def Let_def)
  have e: "emitted ?s' = emitted s @ emitted_by_all body"
    by (simp add: top flush_def scheduleFn_def Let_def)
  have qs: "quiescent ?s'"
    using assms by (simp add: top quiescent_flush_result)
  have inner: "\<forall>t inner. 0 < transactions t \<longrightarrow>
      timers (snd (exec (Batch inner) t)) = timers t
      \<and> transactions (snd (exec (Batch inner) t)) = transactions t
      \<and> heap (snd (exec (Batch inner) t)) (queue t)
          = heap t (queue t) @ scheduled_by_all inner"
    using nested_batch_no_flush by blast
  from fst_batch [of f s] transactions_batch [of f s] r d ts h e qs inner show ?thesis
    by blast
qed

theorem batch_reentrant_exception_safe_witness:
  "quiescent createNotifyManager
   \<and> fst (batch (exec_all [Schedule [Emit 1], Batch [Schedule [Emit 2], Throw 3],
        Schedule [Emit 4]]) createNotifyManager) = Inl 3
   \<and> transactions (snd (batch (exec_all [Schedule [Emit 1], Batch [Schedule [Emit 2], Throw 3],
        Schedule [Emit 4]]) createNotifyManager)) = 0
   \<and> timers (snd (batch (exec_all [Schedule [Emit 1], Batch [Schedule [Emit 2], Throw 3],
        Schedule [Emit 4]]) createNotifyManager)) = [FlushTask 0]
   \<and> heap (snd (batch (exec_all [Schedule [Emit 1], Batch [Schedule [Emit 2], Throw 3],
        Schedule [Emit 4]]) createNotifyManager)) 0 = [[Emit 1], [Emit 2]]"
proof -
  have q: "quiescent createNotifyManager"
    by (simp add: quiescent_def createNotifyManager_def)
  have z: "queue createNotifyManager = 0" "timers createNotifyManager = []"
    by (simp_all add: createNotifyManager_def)
  from batch_reentrant_exception_safe [OF q,
      where body = "[Schedule [Emit 1], Batch [Schedule [Emit 2], Throw 3], Schedule [Emit 4]]"
        and f = "exec_all []"]
  show ?thesis
    using q z by simp
qed

text \<open>
  Claim C7, as stated, fails for a callback \<open>a\<close> that throws: the one flush pass ends
  with the exception of \<open>a\<close>, nothing is left to run, and \<open>b\<close> was never delivered.
\<close>

theorem throwing_callback_ends_pass:
  "timers (snd (batch (exec_all [Schedule [Throw 0], Schedule [Emit 1]]) createNotifyManager))
     = [FlushTask 0]
   \<and> fst (run_next (snd (batch (exec_all [Schedule [Throw 0], Schedule [Emit 1]])
        createNotifyManager))) = Inl 0
   \<and> emitted (snd (run_next (snd (batch (exec_all [Schedule [Throw 0], Schedule [Emit 1]])
        createNotifyManager)))) = []
   \<and> timers (snd (run_next (snd (batch (exec_all [Schedule [Throw 0], Schedule [Emit 1]])
        createNotifyManager)))) = []"
  by (simp add: batch_def schedule_def push_def flush_def scheduleFn_def createNotifyManager_def
      run_next_def batchNotifyFn_def forEach_def forEach_from.simps notifyFn_def)

text \<open>
  Claim C7, amended. For every pair of callbacks \<open>a\<close>, \<open>b\<close>,
  \<^verbatim>\<open>batch(() => { schedule(a); schedule(b) })\<close> entered at depth zero hands the
  scheduler exactly one flush pass, over the array holding \<open>a\<close> then \<open>b\<close>, and leaves a
  new, empty queue. When the pass runs it calls \<open>a\<close> first and, provided \<open>a\<close> returns
  normally, \<open>b\<close> next; an exception thrown by \<open>a\<close> ends the pass before \<open>b\<close>. Whatever
  the callbacks schedule while the pass runs, a pass over an array that is not the
  current queue calls exactly the callbacks the array held when the pass began and leaves
  the array as it was. \<^verbatim>\<open>flush\<close> always installs a new empty queue, and with an
  empty queue swapped out it hands the scheduler nothing.
\<close>

theorem batch_two_callbacks_one_pass:
  assumes "quiescent s"
  shows "fst (batch (exec_all [Schedule a, Schedule b]) s) = Inr ()
    \<and> timers (snd (batch (exec_all [Schedule a, Schedule b]) s))
        = timers s @ [FlushTask (queue s)]
    \<and> heap (snd (batch (exec_all [Schedule a, Schedule b]) s)) (queue s) = [a, b]
    \<and> queue (snd (batch (exec_all [Schedule a, Schedule b]) s)) \<noteq> queue s
    \<and> quiescent (snd (batch (exec_all [Schedule a, Schedule b]) s))
    \<and> run_task (FlushTask (queue s)) (snd (batch (exec_all [Schedule a, Schedule b]) s))
        = deliver [a, b] (snd (batch (exec_all [Schedule a, Schedule b]) s))
    \<and> (\<forall>t. fst (notifyFn a t) = Inr () \<longrightarrow> deliver [a, b] t = notifyFn b (snd (notifyFn a t)))
    \<and> (\<forall>t e. fst (notifyFn a t) = Inl e \<longrightarrow> deliver [a, b] t = notifyFn a t)
    \<and> (\<forall>t q. detached q t \<longrightarrow>
          run_task (FlushTask q) t = deliver (heap t q) t
          \<and> heap (snd (run_task (FlushTask q) t)) q = heap t q)
    \<and> (\<forall>t. queue (flush t) = next_addr t \<and> heap (flush t) (queue (flush t)) = [])
    \<and> (\<forall>t. heap t (queue t) = [] \<longrightarrow> timers (flush t) = timers t)"
proof -
  let ?s' = "snd (batch (exec_all [Schedule a, Schedule b]) s)"
  have q: "queue s < next_addr s" "queue s \<noteq> next_addr s"
    using assms by (simp_all add: quiescent_def)
  have top: "batch (exec_all [Schedule a, Schedule b]) s =
      (Inr (), flush (s\<lparr>heap := (heap s)(queue s := [a, b]), emitted := emitted s\<rparr>))"
    using batch_top_level [OF assms, of "[Schedule a, Schedule b]"] by simp
  have r: "fst (batch (exec_all [Schedule a, Schedule b]) s) = Inr ()"
    by (simp add: top)
  have ts: "timers ?s' = timers s @ [FlushTask (queue s)]"
    using q by (simp add: top flush_def scheduleFn_def Let_def)
  have h: "heap ?s' (queue s) = [a, b]"
    using q by (simp add: top flush_def scheduleFn_def Let_def)
  have nq: "queue ?s' \<noteq> queue s"
    using q by (simp add: top flush_def scheduleFn_def Let_def)
  have qs: "quiescent ?s'"
    using quiescent_exec(1) [OF assms, of "Batch [Schedule a, Schedule b]"] by simp
  have det: "detached (queue s) ?s'"
    using q by (simp add: top flush_def scheduleFn_def Let_def detached_def)
  have pass: "run_task (FlushTask (queue s)) ?s' = deliver [a, b] ?s'"
    using forEach_deliver [OF det] h by (simp add: batchNotifyFn_def)
  have ok: "\<forall>t. fst (notifyFn a t) = Inr () \<longrightarrow> deliver [a, b] t = notifyFn b (snd (notifyFn a t))"
  proof (intro allI impI)
    fix t
    assume "fst (notifyFn a t) = Inr ()"
    then obtain s2 where a: "notifyFn a t = (Inr (), s2)"
      by (cases "notifyFn a t") auto
    obtain r s3 where b: "notifyFn b s2 = (r, s3)"
      by (cases "notifyFn b s2") auto
    show "deliver [a, b] t = notifyFn b (snd (notifyFn a t))"
      using a b by (cases r) simp_all
  qed
  have thrown: "\<forall>t e. fst (notifyFn a t) = Inl e \<longrightarrow> deliver [a, b] t = notifyFn a t"
    by (auto split: prod.splits sum.splits)
  have gen: "\<forall>t q. detached q t \<longrightarrow>
      run_task (FlushTask q) t = deliver (heap t q) t
      \<and> heap (snd (run_task (FlushTask q) t)) q = heap t q"
    by (simp add: batchNotifyFn_def forEach_deliver deliver_frame)
  have swap: "\<forall>t. queue (flush t) = next_addr t \<and> heap (flush t) (queue (flush t)) = []"
    by (simp add: flush_def scheduleFn_def Let_def)
  have empty: "\<forall>t. heap t (queue t) = [] \<longrightarrow> timers (flush t) = timers t"
    by (simp add: flush_def scheduleFn_def Let_def)
  from r ts h nq qs pass ok thrown gen swap empty show ?thesis
    by blast
qed

theorem batch_two_callbacks_one_pass_witness:
  "quiescent createNotifyManager
   \<and> timers (snd (batch (exec_all [Schedule [Emit 1], Schedule [Emit 2, Schedule [Emit 3]]])
        createNotifyManager)) = [FlushTask 0]
   \<and> emitted (snd (run_task (FlushTask 0)
        (snd (batch (exec_all [Schedule [Emit 1], Schedule [Emit 2, Schedule [Emit 3]]])
          createNotifyManager)))) = [1, 2]
   \<and> timers (snd (run_task (FlushTask 0)
        (snd (batch (exec_all [Schedule [Emit 1], Schedule [Emit 2, Schedule [Emit 3]]])
          createNotifyManager)))) = [FlushTask 0, NotifyTask [Emit 3]]"
proof -
  have q: "quiescent createNotifyManager"
    by (simp add: quiescent_def createNotifyManager_def)
  have z: "queue createNotifyManager = 0" "timers createNotifyManager = []"
    by (simp_all add: createNotifyManager_def)
  let ?s' = "snd (batch (exec_all [Schedule [Emit 1], Schedule [Emit 2, Schedule [Emit 3]]])
    createNotifyManager)"
  from batch_two_callbacks_one_pass [OF q, of "[Emit 1]" "[Emit 2, Schedule [Emit 3]]"]
  have ts: "timers ?s' = [FlushTask 0]"
    and pass: "run_task (FlushTask 0) ?s' = deliver [[Emit 1], [Emit 2, Schedule [Emit 3]]] ?s'"
    and qs: "quiescent ?s'"
    using z by simp_all
  have t0: "transactions ?s' = 0" and e0: "emitted ?s' = []"
    by (simp_all add: batch_def schedule_def push_def flush_def scheduleFn_def
        createNotifyManager_def)
  have d: "emitted (snd (deliver [[Emit 1], [Emit 2, Schedule [Emit 3]]] ?s')) = [1, 2]
      \<and> timers (snd (deliver [[Emit 1], [Emit 2, Schedule [Emit 3]]] ?s'))
          = [FlushTask 0, NotifyTask [Emit 3]]"
    using ts t0 e0 by (simp add: notifyFn_def schedule_def scheduleFn_def)
  from d pass have "emitted (snd (run_task (FlushTask 0) ?s')) = [1, 2]
      \<and> timers (snd (run_task (FlushTask 0) ?s')) = [FlushTask 0, NotifyTask [Emit 3]]"
    by (simp only:)
  with q ts show ?thesis by blast
qed
section \<open>The retryer\<close>

named_theorems retryer_ops

declare record_event_def [retryer_ops]
declare promiseResolve_def [retryer_ops]
declare promiseReject_def [retryer_ops]
declare continueResolve_def [retryer_ops]
declare call_continueFn_def [retryer_ops]
declare resolve_def [retryer_ops]
declare reject_def [retryer_ops]
declare cancel_def [retryer_ops]
declare cancelRetry_def [retryer_ops]
declare continueRetry_def [retryer_ops]
declare pause_def [retryer_ops]
declare pause_then_def [retryer_ops]
declare run_def [retryer_ops]
declare on_fulfilled_def [retryer_ops]
declare on_rejected_def [retryer_ops]
declare after_sleep_def [retryer_ops]
declare resume_def [retryer_ops]
declare continue_def [retryer_ops]

lemma run_actions_Nil: "run_actions cfg s [] = s"
  by (simp add: run_actions_def)

lemma run_actions_snoc: "run_actions cfg s (acts @ [a]) = step cfg (run_actions cfg s acts) a"
  by (simp add: run_actions_def)

lemma run_actions_Cons: "run_actions cfg s (a # acts) = run_actions cfg (step cfg s a) acts"
  by (simp add: run_actions_def)

lemma run_actions_append:
  "run_actions cfg s (acts @ rest) = run_actions cfg (run_actions cfg s acts) rest"
  by (simp add: run_actions_def)

lemma terminal_calls_simps:
  "terminal_calls [] = 0"
  "terminal_calls (ev # tr) = (if is_terminal ev then 1 else 0) + terminal_calls tr"
  "terminal_calls (tr @ tr') = terminal_calls tr + terminal_calls tr'"
  by (simp_all add: terminal_calls_def)

lemma calls_simps:
  "calls [] = 0"
  "calls (ev # tr) = (if ev = FnCalled then 1 else 0) + calls tr"
  "calls (tr @ tr') = calls tr + calls tr'"
  by (simp_all add: calls_def)

lemma failed_attempts_simps:
  "failed_attempts [] = 0"
  "failed_attempts (ev # tr) = (if is_failed ev then 1 else 0) + failed_attempts tr"
  "failed_attempts (tr @ tr') = failed_attempts tr + failed_attempts tr'"
  by (simp_all add: failed_attempts_def)

subsection \<open>Consistency of every reachable state\<close>

lemma consistent_create: "consistent (createRetryer cfg f onl)"
  by (simp add: createRetryer_def consistent_def retryer_ops terminal_calls_simps Let_def)

lemma consistent_step:
  assumes "consistent s"
  shows "consistent (step cfg s a)"
proof (cases a)
  case (Cancel options)
  with assms show ?thesis
    by (cases "phase s")
      (auto simp: consistent_def retryer_ops terminal_calls_simps Let_def split: option.splits)
next
  case CancelRetry
  with assms show ?thesis by (auto simp: consistent_def retryer_ops)
next
  case ContinueRetry
  with assms show ?thesis by (auto simp: consistent_def retryer_ops)
next
  case Continue
  with assms show ?thesis
    by (cases "phase s") (auto simp: consistent_def retryer_ops Let_def)
next
  case (SetFocused b)
  with assms show ?thesis by (auto simp: consistent_def)
next
  case (SetOnline b)
  with assms show ?thesis by (auto simp: consistent_def)
next
  case (FnFulfil v)
  with assms show ?thesis
    by (cases "phase s")
      (auto simp: consistent_def retryer_ops terminal_calls_simps Let_def split: option.splits)
next
  case (FnReject e)
  with assms show ?thesis
    by (cases "phase s")
      (auto simp: consistent_def retryer_ops terminal_calls_simps Let_def split: option.splits)
next
  case Tick
  show ?thesis
  proof (cases "phase s")
    case (Paused k)
    with Tick assms show ?thesis by simp
  next
    case (Released k)
    with Tick assms show ?thesis
      by (auto simp: consistent_def retryer_ops terminal_calls_simps Let_def)
  next
    case (Resuming k)
    with Tick assms show ?thesis
      by (cases k)
        (auto simp: consistent_def retryer_ops terminal_calls_simps Let_def split: option.splits)
  next
    case InFlight
    with Tick assms show ?thesis by simp
  next
    case (Sleeping d e)
    with Tick assms show ?thesis
      by (auto simp: consistent_def retryer_ops terminal_calls_simps Let_def)
  next
    case Stopped
    with Tick assms show ?thesis by simp
  qed
qed

lemma consistent_run_actions: "consistent s \<Longrightarrow> consistent (run_actions cfg s acts)"
  by (induction acts rule: rev_induct) (simp_all add: run_actions_Nil run_actions_snoc consistent_step)

lemma consistent_reachable: "consistent (run_actions cfg (createRetryer cfg f onl) acts)"
  by (simp add: consistent_run_actions consistent_create)

subsection \<open>Nothing terminal happens twice\<close>

lemma resolved_step:
  assumes "isResolved s"
  shows "isResolved (step cfg s a) \<and> promise (step cfg s a) = promise s
    \<and> failureCount (step cfg s a) = failureCount s
    \<and> calls (trace (step cfg s a)) = calls (trace s)
    \<and> terminal_calls (trace (step cfg s a)) = terminal_calls (trace s)
    \<and> count_list (trace (step cfg s a)) Abort = count_list (trace s) Abort"
proof (cases a)
  case Tick
  show ?thesis
  proof (cases "phase s")
    case (Resuming k)
    with Tick assms show ?thesis
      by (cases k) (simp_all add: retryer_ops)
  qed (use Tick assms in \<open>simp_all add: retryer_ops calls_simps terminal_calls_simps Let_def\<close>)
qed (use assms in \<open>auto simp: retryer_ops calls_simps terminal_calls_simps Let_def
      split: phase.splits\<close>)

lemma resolved_run_actions:
  assumes "isResolved s"
  shows "isResolved (run_actions cfg s acts) \<and> promise (run_actions cfg s acts) = promise s
    \<and> failureCount (run_actions cfg s acts) = failureCount s
    \<and> calls (trace (run_actions cfg s acts)) = calls (trace s)
    \<and> terminal_calls (trace (run_actions cfg s acts)) = terminal_calls (trace s)
    \<and> count_list (trace (run_actions cfg s acts)) Abort = count_list (trace s) Abort"
proof (induction acts rule: rev_induct)
  case Nil
  with assms show ?case by (simp add: run_actions_Nil)
next
  case (snoc a acts)
  with resolved_step [of "run_actions cfg s acts" cfg a] show ?case
    by (simp add: run_actions_snoc)
qed

text \<open>
  In every state of every run at most one of \<^verbatim>\<open>onSuccess\<close>, \<^verbatim>\<open>onError\<close> has
  been called, at most once, and exactly one, once, if the retryer is resolved.
\<close>

lemma terminal_hook_once:
  "terminal_calls (trace (run_actions cfg (createRetryer cfg f onl) acts)) =
     (if isResolved (run_actions cfg (createRetryer cfg f onl) acts) then 1 else 0)"
  using consistent_reachable [of cfg f onl acts] by (simp add: consistent_def)

subsection \<open>Pausing\<close>

text \<open>
  Claim C1, the code at the failing input. The window is not focused. The first attempt
  fails and is to be retried (default policy), \<^verbatim>\<open>cancel()\<close> is called during the
  sleep, then the sleep ends. The retryer is resolved by the cancellation (one
  \<^verbatim>\<open>onError\<close>, no further attempt, \<open>failureCount\<close> unchanged), and yet the reaction
  after the sleep calls \<^verbatim>\<open>pause\<close>: \<^verbatim>\<open>onPause\<close> fires and a new gate waits.
\<close>

theorem pause_after_resolution:
  "isResolved (run_actions
       \<lparr>retry = None, retryDelay = None, networkMode = None, isServer = False\<rparr>
       (createRetryer \<lparr>retry = None, retryDelay = None, networkMode = None, isServer = False\<rparr>
          False True)
       [FnReject (Failure 1), Cancel None])
   \<and> run_actions
       \<lparr>retry = None, retryDelay = None, networkMode = None, isServer = False\<rparr>
       (createRetryer \<lparr>retry = None, retryDelay = None, networkMode = None, isServer = False\<rparr>
          False True)
       [FnReject (Failure 1), Cancel None, Tick]
     = \<lparr>isRetryCancelled = False, failureCount = 1, isResolved = True, continueFn = True,
        promise = Some (Rejected (CancelledError None None)),
        phase = Paused (Retry (Failure 1)), focused = False, online = True,
        trace = [FnCalled, FnFailed (Failure 1), OnFail 1 (Failure 1), Sleep (Fin 1000),
                 OnError (CancelledError None None), Abort, OnPause]\<rparr>"
  by (simp add: run_actions_def createRetryer_def canFetch_def shouldPause_def retryer_ops
      shouldRetry_def retryOrDefault_def delay_for_def defaultRetryDelay_def
      newCancelledError_def Let_def)

subsection \<open>Cancelling\<close>

lemma newCancelledError_flags:
  "newCancelledError (Some \<lparr>revert = r, silent = q\<rparr>) = CancelledError r q"
  "newCancelledError None = CancelledError None None"
  by (simp_all add: newCancelledError_def)

lemma cancel_unresolved:
  assumes "consistent s" and "\<not> isResolved s"
  shows "isResolved (cancel cfg options s)"
    and "promise (cancel cfg options s) = Some (Rejected (newCancelledError options))"
    and "trace (cancel cfg options s) = trace s @ [OnError (newCancelledError options), Abort]"
    and "count_list (trace (cancel cfg options s)) Abort = 1"
    and "phase s = Paused k \<Longrightarrow> phase (cancel cfg options s) = Released k"
    and "\<not> gate_exists (phase s) \<Longrightarrow> phase (cancel cfg options s) = phase s"
    and "failureCount (cancel cfg options s) = failureCount s"
    and "calls (trace (cancel cfg options s)) = calls (trace s)"
  using assms
  by (cases "phase s"; auto simp: consistent_def retryer_ops terminal_calls_simps calls_simps
      Let_def)+

text \<open>
  Claim C8. In every state of every run in which the retryer is not yet resolved, also
  while it waits in a pause, \<^verbatim>\<open>cancel(options)\<close> at once resolves it: the promise
  is rejected with a \<^verbatim>\<open>CancelledError\<close> carrying \<^verbatim>\<open>revert\<close> and
  \<^verbatim>\<open>silent\<close> of the options, \<^verbatim>\<open>onError\<close> and then \<^verbatim>\<open>abort\<close> are called,
  \<^verbatim>\<open>abort\<close> for the only time in the run, and a waiting gate is released
  whatever the focus and connectivity signals say; no attempt is made afterwards. On a
  resolved retryer \<^verbatim>\<open>cancel\<close> changes nothing.
\<close>

theorem cancel_resolves_immediately:
  assumes "s = run_actions cfg (createRetryer cfg isFocused isOnline) acts"
  shows "(\<not> isResolved s \<longrightarrow>
        isResolved (cancel cfg options s)
        \<and> promise (cancel cfg options s) = Some (Rejected (newCancelledError options))
        \<and> trace (cancel cfg options s)
            = trace s @ [OnError (newCancelledError options), Abort]
        \<and> count_list (trace (cancel cfg options s)) Abort = 1
        \<and> (\<forall>k. phase s = Paused k \<longrightarrow> phase (cancel cfg options s) = Released k)
        \<and> (\<forall>later.
              calls (trace (run_actions cfg (cancel cfg options s) later)) = calls (trace s)
              \<and> promise (run_actions cfg (cancel cfg options s) later)
                  = Some (Rejected (newCancelledError options))
              \<and> count_list (trace (run_actions cfg (cancel cfg options s) later)) Abort = 1))
    \<and> (isResolved s \<longrightarrow> cancel cfg options s = s)
    \<and> newCancelledError (Some \<lparr>revert = r, silent = q\<rparr>) = CancelledError r q
    \<and> newCancelledError None = CancelledError None None"
proof -
  have c: "consistent s"
    unfolding assms by (rule consistent_reachable)
  have noop: "isResolved s \<longrightarrow> cancel cfg options s = s"
    by (simp add: cancel_def)
  have act: "isResolved (cancel cfg options s)
      \<and> promise (cancel cfg options s) = Some (Rejected (newCancelledError options))
      \<and> trace (cancel cfg options s) = trace s @ [OnError (newCancelledError options), Abort]
      \<and> count_list (trace (cancel cfg options s)) Abort = 1
      \<and> (\<forall>k. phase s = Paused k \<longrightarrow> phase (cancel cfg options s) = Released k)
      \<and> (\<forall>later.
            calls (trace (run_actions cfg (cancel cfg options s) later)) = calls (trace s)
            \<and> promise (run_actions cfg (cancel cfg options s) later)
                = Some (Rejected (newCancelledError options))
            \<and> count_list (trace (run_actions cfg (cancel cfg options s) later)) Abort = 1)"
    if u: "\<not> isResolved s"
  proof -
    note cu = cancel_unresolved [OF c u, where cfg = cfg and options = options]
    have "\<forall>k. phase s = Paused k \<longrightarrow> phase (cancel cfg options s) = Released k"
      using cu(5) by blast
    moreover have "\<forall>later.
        calls (trace (run_actions cfg (cancel cfg options s) later)) = calls (trace s)
        \<and> promise (run_actions cfg (cancel cfg options s) later)
            = Some (Rejected (newCancelledError options))
        \<and> count_list (trace (run_actions cfg (cancel cfg options s) later)) Abort = 1"
      using resolved_run_actions [OF cu(1), of cfg] cu(2,4,8) by simp
    ultimately show ?thesis
      using cu(1,2,3,4) by blast
  qed
  from act noop newCancelledError_flags show ?thesis
    by blast
qed

theorem cancel_resolves_immediately_witness:
  "\<not> isResolved (createRetryer
        \<lparr>retry = None, retryDelay = None, networkMode = None, isServer = False\<rparr> True False)
   \<and> phase (createRetryer
        \<lparr>retry = None, retryDelay = None, networkMode = None, isServer = False\<rparr> True False)
       = Paused StartRun
   \<and> promise (cancel \<lparr>retry = None, retryDelay = None, networkMode = None, isServer = False\<rparr>
        (Some \<lparr>revert = Some True, silent = None\<rparr>)
        (createRetryer
          \<lparr>retry = None, retryDelay = None, networkMode = None, isServer = False\<rparr> True False))
       = Some (Rejected (CancelledError (Some True) None))
   \<and> trace (cancel \<lparr>retry = None, retryDelay = None, networkMode = None, isServer = False\<rparr>
        (Some \<lparr>revert = Some True, silent = None\<rparr>)
        (createRetryer
          \<lparr>retry = None, retryDelay = None, networkMode = None, isServer = False\<rparr> True False))
       = [OnPause, OnError (CancelledError (Some True) None), Abort]
   \<and> phase (cancel \<lparr>retry = None, retryDelay = None, networkMode = None, isServer = False\<rparr>
        (Some \<lparr>revert = Some True, silent = None\<rparr>)
        (createRetryer
          \<lparr>retry = None, retryDelay = None, networkMode = None, isServer = False\<rparr> True False))
       = Released StartRun"
proof -
  let ?cfg = "\<lparr>retry = None, retryDelay = None, networkMode = None, isServer = False\<rparr>"
  let ?s = "createRetryer ?cfg True False"
  have s: "?s = run_actions ?cfg (createRetryer ?cfg True False) []"
    by (simp add: run_actions_Nil)
  have u: "\<not> isResolved ?s" and p: "phase ?s = Paused StartRun" and t: "trace ?s = [OnPause]"
    by (simp_all add: createRetryer_def canFetch_def retryer_ops Let_def)
  from cancel_resolves_immediately [OF s, of "Some \<lparr>revert = Some True, silent = None\<rparr>"] u p t
  show ?thesis
    by (simp add: newCancelledError_def)
qed

subsection \<open>Continuing\<close>

text \<open>
  Claim C9, as stated, fails. A retryer created offline waits in a pause; while the
  device is still offline \<^verbatim>\<open>continue()\<close> leaves the gate closed and the state as it
  was, and returns an already resolved promise, not the retryer's.
\<close>

theorem continue_does_not_force_release:
  "phase (createRetryer
      \<lparr>retry = None, retryDelay = None, networkMode = None, isServer = False\<rparr> True False)
     = Paused StartRun
   \<and> continue \<lparr>retry = None, retryDelay = None, networkMode = None, isServer = False\<rparr>
       (createRetryer
         \<lparr>retry = None, retryDelay = None, networkMode = None, isServer = False\<rparr> True False)
     = (ResolvedPromise,
        createRetryer
          \<lparr>retry = None, retryDelay = None, networkMode = None, isServer = False\<rparr> True False)"
  by (simp add: createRetryer_def canFetch_def shouldPause_def retryer_ops Let_def)

text \<open>
  Claim C9, amended. In every state of every run, \<^verbatim>\<open>continue()\<close> called while a
  pause gate waits releases the gate and returns the retryer's promise only if the
  retryer is already resolved or the signals no longer ask for a pause (the window is
  focused and, unless the network mode is \<^verbatim>\<open>always\<close>, the device is online);
  otherwise the gate stays closed, nothing changes, and an already resolved promise is
  returned. Called when no pause is active it changes nothing and returns an already
  resolved promise.
\<close>

theorem continue_releases_only_when_allowed:
  assumes "s = run_actions cfg (createRetryer cfg isFocused isOnline) acts"
  shows "(\<forall>k. phase s = Paused k \<longrightarrow>
        continue cfg s =
          (if isResolved s \<or> \<not> shouldPause cfg s
           then (ThePromise, s\<lparr>phase := Released k\<rparr>)
           else (ResolvedPromise, s)))
    \<and> (\<not> gate_exists (phase s) \<longrightarrow> continue cfg s = (ResolvedPromise, s))
    \<and> shouldPause cfg s = (\<not> focused s \<or> (networkMode cfg \<noteq> Some Always \<and> \<not> online s))"
proof -
  have c: "continueFn s = gate_exists (phase s)"
    using consistent_reachable [of cfg isFocused isOnline acts]
    unfolding assms by (simp add: consistent_def)
  have "continue cfg s =
      (if isResolved s \<or> \<not> shouldPause cfg s
       then (ThePromise, s\<lparr>phase := Released k\<rparr>)
       else (ResolvedPromise, s))" if "phase s = Paused k" for k
    using that c by (simp add: retryer_ops Let_def)
  moreover have "\<not> gate_exists (phase s) \<longrightarrow> continue cfg s = (ResolvedPromise, s)"
    using c by (simp add: retryer_ops Let_def)
  ultimately show ?thesis
    by (simp add: shouldPause_def)
qed

theorem continue_releases_only_when_allowed_witness:
  "continue \<lparr>retry = None, retryDelay = None, networkMode = None, isServer = False\<rparr>
     (run_actions \<lparr>retry = None, retryDelay = None, networkMode = None, isServer = False\<rparr>
        (createRetryer
          \<lparr>retry = None, retryDelay = None, networkMode = None, isServer = False\<rparr> True False)
        [SetOnline True])
     = (ThePromise,
        \<lparr>isRetryCancelled = False, failureCount = 0, isResolved = False, continueFn = True,
         promise = None, phase = Released StartRun, focused = True, online = True,
         trace = [OnPause]\<rparr>)
   \<and> continue \<lparr>retry = None, retryDelay = None, networkMode = None, isServer = False\<rparr>
       (createRetryer
         \<lparr>retry = None, retryDelay = None, networkMode = None, isServer = False\<rparr> True True)
     = (ResolvedPromise,
        createRetryer
          \<lparr>retry = None, retryDelay = None, networkMode = None, isServer = False\<rparr> True True)"
proof -
  let ?cfg = "\<lparr>retry = None, retryDelay = None, networkMode = None, isServer = False\<rparr>"
  let ?s = "run_actions ?cfg (createRetryer ?cfg True False) [SetOnline True]"
  let ?t = "createRetryer ?cfg True True"
  have s: "?s = \<lparr>isRetryCancelled = False, failureCount = 0, isResolved = False,
      continueFn = True, promise = None, phase = Paused StartRun, focused = True,
      online = True, trace = [OnPause]\<rparr>"
    by (simp add: run_actions_def createRetryer_def canFetch_def retryer_ops Let_def)
  have t: "?t = run_actions ?cfg (createRetryer ?cfg True True) []"
    by (simp add: run_actions_Nil)
  have pt: "phase ?t = InFlight"
    by (simp add: createRetryer_def canFetch_def retryer_ops Let_def)
  from continue_releases_only_when_allowed [OF refl, of ?cfg True False "[SetOnline True]"]
  have "continue ?cfg ?s = (ThePromise, ?s\<lparr>phase := Released StartRun\<rparr>)"
    by (simp add: s shouldPause_def)
  moreover from continue_releases_only_when_allowed [OF t] pt
  have "continue ?cfg ?t = (ResolvedPromise, ?t)"
    by simp
  ultimately show ?thesis
    by (simp add: s)
qed

subsection \<open>What resolving changes\<close>

lemma call_continueFn_fields:
  "isRetryCancelled (snd (call_continueFn cfg s)) = isRetryCancelled s"
  "failureCount (snd (call_continueFn cfg s)) = failureCount s"
  "isResolved (snd (call_continueFn cfg s)) = isResolved s"
  "continueFn (snd (call_continueFn cfg s)) = continueFn s"
  "promise (snd (call_continueFn cfg s)) = promise s"
  "focused (snd (call_continueFn cfg s)) = focused s"
  "online (snd (call_continueFn cfg s)) = online s"
  "trace (snd (call_continueFn cfg s)) = trace s"
  "phase (snd (call_continueFn cfg s)) =
     (if continueFn s \<and> (isResolved s \<or> \<not> shouldPause cfg s)
      then (case phase s of Paused k \<Rightarrow> Released k | p \<Rightarrow> p)
      else phase s)"
  by (simp_all add: call_continueFn_def continueResolve_def Let_def split: phase.splits)

lemma reject_fields:
  "isRetryCancelled (reject cfg e s) = isRetryCancelled s"
  "failureCount (reject cfg e s) = failureCount s"
  "isResolved (reject cfg e s) = True"
  "continueFn (reject cfg e s) = continueFn s"
  "promise (reject cfg e s) =
     (if isResolved s then promise s
      else (case promise s of None \<Rightarrow> Some (Rejected e) | Some x \<Rightarrow> Some x))"
  "focused (reject cfg e s) = focused s"
  "online (reject cfg e s) = online s"
  "trace (reject cfg e s) = (if isResolved s then trace s else trace s @ [OnError e])"
  "phase (reject cfg e s) =
     (if \<not> isResolved s \<and> continueFn s
      then (case phase s of Paused k \<Rightarrow> Released k | p \<Rightarrow> p)
      else phase s)"
  by (simp_all add: reject_def promiseReject_def record_event_def call_continueFn_fields Let_def
      split: option.splits)

lemma resolve_fields:
  "isRetryCancelled (resolve cfg v s) = isRetryCancelled s"
  "failureCount (resolve cfg v s) = failureCount s"
  "isResolved (resolve cfg v s) = True"
  "continueFn (resolve cfg v s) = continueFn s"
  "promise (resolve cfg v s) =
     (if isResolved s then promise s
      else (case promise s of None \<Rightarrow> Some (Fulfilled v) | Some x \<Rightarrow> Some x))"
  "focused (resolve cfg v s) = focused s"
  "online (resolve cfg v s) = online s"
  "trace (resolve cfg v s) = (if isResolved s then trace s else trace s @ [OnSuccess v])"
  "phase (resolve cfg v s) =
     (if \<not> isResolved s \<and> continueFn s
      then (case phase s of Paused k \<Rightarrow> Released k | p \<Rightarrow> p)
      else phase s)"
  by (simp_all add: resolve_def promiseResolve_def record_event_def call_continueFn_fields Let_def
      split: option.splits)

named_theorems retryer_steps

declare record_event_def [retryer_steps]
declare call_continueFn_fields [retryer_steps]
declare reject_fields [retryer_steps]
declare resolve_fields [retryer_steps]
declare cancel_def [retryer_steps]
declare cancelRetry_def [retryer_steps]
declare continueRetry_def [retryer_steps]
declare pause_def [retryer_steps]
declare pause_then_def [retryer_steps]
declare run_def [retryer_steps]
declare on_fulfilled_def [retryer_steps]
declare on_rejected_def [retryer_steps]
declare after_sleep_def [retryer_steps]
declare resume_def [retryer_steps]

lemma snd_continue: "snd (continue cfg s) = snd (call_continueFn cfg s)"
  by (simp add: continue_def split_beta)

subsection \<open>Counting failures\<close>

lemma onFail_counts_append:
  "onFail_counts k (tr @ tr') =
     (onFail_counts k tr \<and> onFail_counts (k + failed_attempts tr) tr')"
  by (induction k tr rule: onFail_counts.induct) (simp_all add: failed_attempts_simps)

lemma counted_create: "counted (createRetryer cfg f onl)"
  by (simp add: createRetryer_def counted_def retryer_ops failed_attempts_simps Let_def)

lemma counted_step:
  assumes "counted s"
  shows "counted (step cfg s a)"
proof (cases a)
  case Tick
  show ?thesis
  proof (cases "phase s")
    case (Resuming k)
    with Tick assms show ?thesis
      by (cases k)
        (auto simp: counted_def retryer_steps onFail_counts_append failed_attempts_simps)
  qed (use Tick assms in \<open>auto simp: counted_def retryer_steps onFail_counts_append
        failed_attempts_simps Let_def\<close>)
qed (use assms in \<open>auto simp: counted_def retryer_steps snd_continue onFail_counts_append
      failed_attempts_simps Let_def\<close>)

lemma counted_reachable: "counted (run_actions cfg (createRetryer cfg f onl) acts)"
  by (induction acts rule: rev_induct)
    (simp_all add: run_actions_Nil run_actions_snoc counted_create counted_step)

lemma defaultRetryDelay_first: "defaultRetryDelay 0 = Fin 1000"
  by (simp add: defaultRetryDelay_def)

text \<open>
  Claim C10. In every state of every run, when an attempt fails that will be retried (the
  retryer is unresolved, retries are not cancelled, the policy permits a retry), the delay
  that is slept is the delay policy applied to \<open>failureCount\<close> as it was before the
  increment, and \<^verbatim>\<open>onFail\<close> is called with the incremented count, which is the
  number of attempts that have failed so far. Throughout every run each call of
  \<^verbatim>\<open>onFail\<close> had as first argument the number of failed attempts up to it, at least
  1. Under the default backoff the first wait, computed from \<open>failureCount = 0\<close>, is
  1000 ms.
\<close>

theorem delay_before_increment_onFail_after:
  assumes "s = run_actions cfg (createRetryer cfg isFocused isOnline) acts"
    and "phase s = InFlight" and "\<not> isResolved s" and "\<not> isRetryCancelled s"
    and "shouldRetry cfg (failureCount s) e"
  shows "trace (step cfg s (FnReject e))
      = trace s @ [FnFailed e, OnFail (failureCount s + 1) e,
                   Sleep (delay_for cfg (failureCount s) e)]
    \<and> phase (step cfg s (FnReject e)) = Sleeping (delay_for cfg (failureCount s) e) e
    \<and> failureCount (step cfg s (FnReject e)) = failureCount s + 1
    \<and> failureCount s + 1 = failed_attempts (trace (step cfg s (FnReject e)))
    \<and> 1 \<le> failureCount s + 1
    \<and> onFail_counts 0 (trace (step cfg s (FnReject e)))
    \<and> (\<forall>isFocused' isOnline' acts'.
          onFail_counts 0 (trace (run_actions cfg (createRetryer cfg isFocused' isOnline') acts')))
    \<and> (retryDelay cfg = None \<longrightarrow> failureCount s = 0 \<longrightarrow>
          delay_for cfg (failureCount s) e = Fin 1000)
    \<and> (\<forall>n. retryDelay cfg = None \<longrightarrow>
          delay_for cfg n e = Fin (min (1000 * 2 ^ n) 30000))"
proof -
  have c: "counted s"
    unfolding assms(1) by (rule counted_reachable)
  then have fc: "failureCount s = failed_attempts (trace s)"
    using assms(3) by (simp add: counted_def)
  have st: "step cfg s (FnReject e) = on_rejected cfg e s"
    using assms(2) by simp
  have tr: "trace (on_rejected cfg e s)
      = trace s @ [FnFailed e, OnFail (failureCount s + 1) e,
                   Sleep (delay_for cfg (failureCount s) e)]"
    and ph: "phase (on_rejected cfg e s) = Sleeping (delay_for cfg (failureCount s) e) e"
    and inc: "failureCount (on_rejected cfg e s) = failureCount s + 1"
    using assms(3-5) by (simp_all add: on_rejected_def record_event_def Let_def)
  have n: "failureCount s + 1 = failed_attempts (trace (on_rejected cfg e s))"
    unfolding tr fc by (simp add: failed_attempts_simps)
  have "counted (step cfg s (FnReject e))"
    using c by (rule counted_step)
  then have here: "onFail_counts 0 (trace (on_rejected cfg e s))"
    unfolding st by (simp add: counted_def)
  have everywhere: "\<forall>isFocused' isOnline' acts'.
      onFail_counts 0 (trace (run_actions cfg (createRetryer cfg isFocused' isOnline') acts'))"
    using counted_reachable by (simp add: counted_def)
  have d: "\<forall>n. retryDelay cfg = None \<longrightarrow> delay_for cfg n e = Fin (min (1000 * 2 ^ n) 30000)"
    by (simp add: delay_for_def defaultRetryDelay_def)
  then have first: "retryDelay cfg = None \<longrightarrow> failureCount s = 0 \<longrightarrow>
      delay_for cfg (failureCount s) e = Fin 1000"
    by simp
  have pos: "1 \<le> failureCount s + 1"
    by simp
  from tr ph inc n pos here everywhere first d show ?thesis
    unfolding st by blast
qed

theorem delay_before_increment_onFail_after_witness:
  "trace (step \<lparr>retry = None, retryDelay = None, networkMode = None, isServer = False\<rparr>
      (createRetryer \<lparr>retry = None, retryDelay = None, networkMode = None, isServer = False\<rparr>
        True True)
      (FnReject (Failure 7)))
     = [FnCalled, FnFailed (Failure 7), OnFail 1 (Failure 7), Sleep (Fin 1000)]
   \<and> failureCount (step \<lparr>retry = None, retryDelay = None, networkMode = None, isServer = False\<rparr>
      (createRetryer \<lparr>retry = None, retryDelay = None, networkMode = None, isServer = False\<rparr>
        True True)
      (FnReject (Failure 7))) = 1"
proof -
  let ?cfg = "\<lparr>retry = None, retryDelay = None, networkMode = None, isServer = False\<rparr>"
  let ?s = "createRetryer ?cfg True True"
  have s: "?s = run_actions ?cfg (createRetryer ?cfg True True) []"
    by (simp add: run_actions_Nil)
  have st: "phase ?s = InFlight" "\<not> isResolved ?s" "\<not> isRetryCancelled ?s"
    "failureCount ?s = 0" "trace ?s = [FnCalled]"
    by (simp_all add: createRetryer_def canFetch_def retryer_ops Let_def)
  have sr: "shouldRetry ?cfg (failureCount ?s) (Failure 7)"
    by (simp add: st shouldRetry_def retryOrDefault_def)
  note th = delay_before_increment_onFail_after [OF s st(1,2,3) sr]
  have "trace (step ?cfg ?s (FnReject (Failure 7)))
      = trace ?s @ [FnFailed (Failure 7), OnFail (failureCount ?s + 1) (Failure 7),
                    Sleep (delay_for ?cfg (failureCount ?s) (Failure 7))]"
    by (rule th [THEN conjunct1])
  moreover have "failureCount (step ?cfg ?s (FnReject (Failure 7))) = failureCount ?s + 1"
    by (rule th [THEN conjunct2, THEN conjunct2, THEN conjunct1])
  ultimately show ?thesis
    by (simp only: st(4,5))
      (simp add: delay_for_def defaultRetryDelay_def)
qed

subsection \<open>A bounded number of attempts\<close>

lemma within_budget_create: "within_budget n (createRetryer cfg f onl)"
  by (simp add: createRetryer_def within_budget_def retryer_steps calls_simps Let_def)

lemma within_budget_step:
  assumes "within_budget n s" and "\<forall>fc e. shouldRetry cfg fc e \<longrightarrow> fc < n"
  shows "within_budget n (step cfg s a)"
proof (cases a)
  case (FnReject e)
  show ?thesis
  proof (cases "phase s = InFlight \<and> \<not> isResolved s \<and> \<not> isRetryCancelled s
      \<and> shouldRetry cfg (failureCount s) e")
    case True
    then have "failureCount s < n" using assms(2) by blast
    with True FnReject assms(1) show ?thesis
      by (auto simp: within_budget_def retryer_steps calls_simps Let_def)
  next
    case False
    with FnReject assms(1) show ?thesis
      by (auto simp: within_budget_def retryer_steps calls_simps Let_def)
  qed
next
  case Tick
  show ?thesis
  proof (cases "phase s")
    case (Resuming k)
    with Tick assms(1) show ?thesis
      by (cases k) (auto simp: within_budget_def retryer_steps calls_simps Let_def)
  qed (use Tick assms(1) in \<open>auto simp: within_budget_def retryer_steps calls_simps Let_def\<close>)
qed (use assms(1) in \<open>auto simp: within_budget_def retryer_steps snd_continue calls_simps
      Let_def split: phase.splits\<close>)

lemma within_budget_reachable:
  assumes "\<forall>fc e. shouldRetry cfg fc e \<longrightarrow> fc < n"
  shows "within_budget n (run_actions cfg (createRetryer cfg f onl) acts)"
proof (induction acts rule: rev_induct)
  case Nil
  show ?case by (simp add: run_actions_Nil within_budget_create)
next
  case (snoc a acts)
  then show ?case
    using assms by (simp add: run_actions_snoc within_budget_step)
qed

lemma calls_bounded:
  assumes "\<forall>fc e. shouldRetry cfg fc e \<longrightarrow> fc < n"
  shows "calls (trace (run_actions cfg (createRetryer cfg f onl) acts)) \<le> n + 1"
  using within_budget_reachable [OF assms, of f onl acts]
  by (simp add: within_budget_def split: if_splits)

lemma on_course_create: "on_course n (createRetryer cfg f onl)"
  by (simp add: createRetryer_def on_course_def retryer_steps calls_simps Let_def)

lemma on_course_step:
  assumes "on_course n s" and "consistent s" and "plain a"
    and "\<forall>fc e. shouldRetry cfg fc e = (fc < n)"
  shows "on_course n (step cfg s a)"
proof (cases a)
  case (FnReject e)
  show ?thesis
  proof (cases "phase s")
    case InFlight
    with assms(1) have u: "\<not> isResolved s" "\<not> isRetryCancelled s"
      "calls (trace s) = failureCount s + 1" "failureCount s \<le> n"
      by (simp_all add: on_course_def)
    from u(1) assms(2) have p: "promise s = None"
      by (simp add: consistent_def)
    show ?thesis
    proof (cases "failureCount s < n")
      case True
      with FnReject InFlight u assms(4) show ?thesis
        by (simp add: on_course_def retryer_steps calls_simps Let_def)
    next
      case False
      with u(4) have "failureCount s = n" by simp
      with False FnReject InFlight u p assms(4) show ?thesis
        by (simp add: on_course_def retryer_steps calls_simps Let_def)
    qed
  qed (use FnReject assms(1) in simp_all)
next
  case Tick
  show ?thesis
  proof (cases "phase s")
    case (Resuming k)
    with Tick assms(1) show ?thesis
      by (cases k) (auto simp: on_course_def retryer_steps calls_simps Let_def)
  qed (use Tick assms(1) in \<open>auto simp: on_course_def retryer_steps calls_simps Let_def\<close>)
next
  case Continue
  with assms(1) show ?thesis
    by (cases "phase s") (auto simp: on_course_def retryer_steps snd_continue Let_def)
qed (use assms(1,3) in \<open>auto simp: on_course_def retryer_steps Let_def split: phase.splits\<close>)

lemma on_course_reachable:
  assumes "list_all plain acts" and "\<forall>fc e. shouldRetry cfg fc e = (fc < n)"
  shows "on_course n (run_actions cfg (createRetryer cfg f onl) acts)"
  using assms(1)
proof (induction acts rule: rev_induct)
  case Nil
  show ?case by (simp add: run_actions_Nil on_course_create)
next
  case (snoc a acts)
  then have "on_course n (run_actions cfg (createRetryer cfg f onl) acts)" and "plain a"
    by simp_all
  then show ?case
    using assms(2) consistent_reachable [of cfg f onl acts]
    by (simp add: run_actions_snoc on_course_step)
qed

lemma on_course_resolved:
  assumes "on_course n s" and "isResolved s"
  shows "calls (trace s) = n + 1 \<and> failureCount s = n
    \<and> (\<exists>e. promise s = Some (Rejected e) \<and> FnFailed e \<in> set (trace s))"
  using assms by (cases "phase s") (simp_all add: on_course_def)

lemma shouldRetry_number_2:
  "retry cfg = Some (RetryNumber (Fin 2)) \<Longrightarrow> shouldRetry cfg fc e = (fc < 2)"
  by (simp add: shouldRetry_def retryOrDefault_def)

lemma shouldRetry_false:
  "retry cfg = Some (RetryBool False) \<Longrightarrow> shouldRetry cfg fc e = (fc < 0)"
  by (simp add: shouldRetry_def retryOrDefault_def)

lemma step_fail_retry:
  assumes "phase s = InFlight" and "\<not> isResolved s" and "\<not> isRetryCancelled s"
    and "shouldRetry cfg (failureCount s) e"
  shows "step cfg s (FnReject e) =
    s\<lparr>failureCount := failureCount s + 1,
      trace := trace s @ [FnFailed e, OnFail (failureCount s + 1) e,
                          Sleep (delay_for cfg (failureCount s) e)],
      phase := Sleeping (delay_for cfg (failureCount s) e) e\<rparr>"
  using assms by (simp add: on_rejected_def record_event_def Let_def)

lemma step_fail_final:
  assumes "phase s = InFlight" and "\<not> isResolved s" and "\<not> continueFn s"
    and "promise s = None" and "\<not> shouldRetry cfg (failureCount s) e"
  shows "step cfg s (FnReject e) =
    s\<lparr>trace := trace s @ [FnFailed e, OnError e], isResolved := True,
      promise := Some (Rejected e), phase := Stopped\<rparr>"
  using assms
  by (simp add: on_rejected_def reject_def call_continueFn_def promiseReject_def
      record_event_def Let_def)

lemma step_sleep_over:
  assumes "phase s = Sleeping d e" and "\<not> shouldPause cfg s"
  shows "step cfg s Tick = s\<lparr>phase := Resuming (Retry e)\<rparr>"
  using assms by (simp add: after_sleep_def)

lemma step_resume_run:
  assumes "phase s = Resuming (Retry e)" and "\<not> isResolved s" and "\<not> isRetryCancelled s"
  shows "step cfg s Tick = s\<lparr>phase := InFlight, trace := trace s @ [FnCalled]\<rparr>"
  using assms by (simp add: resume_def run_def record_event_def)

lemma create_online:
  "createRetryer cfg isFocused True =
    \<lparr>isRetryCancelled = False, failureCount = 0, isResolved = False, continueFn = False,
     promise = None, phase = InFlight, focused = isFocused, online = True,
     trace = [FnCalled]\<rparr>"
  by (simp add: createRetryer_def canFetch_def run_def record_event_def Let_def)

lemma three_failures_run:
  assumes "retry cfg = Some (RetryNumber (Fin 2))" and "retryDelay cfg = Some (DelayNumber (Fin 0))"
  shows "run_actions cfg (createRetryer cfg True True)
      [FnReject e1, Tick, Tick, FnReject e2, Tick, Tick, FnReject e3]
    = \<lparr>isRetryCancelled = False, failureCount = 2, isResolved = True, continueFn = False,
       promise = Some (Rejected e3), phase = Stopped, focused = True, online = True,
       trace = [FnCalled, FnFailed e1, OnFail 1 e1, Sleep (Fin 0),
                FnCalled, FnFailed e2, OnFail 2 e2, Sleep (Fin 0),
                FnCalled, FnFailed e3, OnError e3]\<rparr>"
proof -
  have r: "shouldRetry cfg fc e = (fc < 2)" for fc e
    using assms(1) by (simp add: shouldRetry_number_2)
  have d: "delay_for cfg fc e = Fin 0" for fc e
    using assms(2) by (simp add: delay_for_def)
  show ?thesis
    by (simp add: run_actions_Cons run_actions_Nil create_online step_fail_retry
        step_fail_final step_sleep_over step_resume_run r d shouldPause_def
        del: step.simps)
qed

lemma one_failure_run:
  assumes "retry cfg = Some (RetryBool False)"
  shows "run_actions cfg (createRetryer cfg True True) [FnReject e1]
    = \<lparr>isRetryCancelled = False, failureCount = 0, isResolved = True, continueFn = False,
       promise = Some (Rejected e1), phase = Stopped, focused = True, online = True,
       trace = [FnCalled, FnFailed e1, OnError e1]\<rparr>"
proof -
  have r: "shouldRetry cfg fc e = False" for fc e
    using assms by (simp add: shouldRetry_false)
  show ?thesis
    by (simp add: run_actions_Cons run_actions_Nil create_online step_fail_final r
        del: step.simps)
qed


text \<open>
  Claim C2. Retry policy 2 with constant delay 0, window focused and device online: when
  the first three calls of the work function fail, the retryer makes exactly three calls
  with two retries (\<^verbatim>\<open>onFail\<close> with 1 and 2, two sleeps of 0) and is then rejected
  with the third error; whatever happens later, also a work function that would succeed,
  there is no fourth call. Under this policy no run at all, whatever the interleaving of
  calls, signals and settlements, has more than three calls, and in every run in which the
  work function never succeeds and nothing is cancelled, a resolved retryer has made
  exactly three calls and two retries and is rejected with the error of a failed attempt.
  With retry policy \<^verbatim>\<open>false\<close> the same holds with one call and no retry.
\<close>

theorem retry_twice_then_fail:
  assumes "retry cfg = Some (RetryNumber (Fin 2))"
    and "retryDelay cfg = Some (DelayNumber (Fin 0))"
    and "retry cfg0 = Some (RetryBool False)"
    and "list_all plain acts"
  shows "run_actions cfg (createRetryer cfg True True)
        [FnReject e1, Tick, Tick, FnReject e2, Tick, Tick, FnReject e3]
      = \<lparr>isRetryCancelled = False, failureCount = 2, isResolved = True, continueFn = False,
         promise = Some (Rejected e3), phase = Stopped, focused = True, online = True,
         trace = [FnCalled, FnFailed e1, OnFail 1 e1, Sleep (Fin 0),
                  FnCalled, FnFailed e2, OnFail 2 e2, Sleep (Fin 0),
                  FnCalled, FnFailed e3, OnError e3]\<rparr>
    \<and> (\<forall>later.
          calls (trace (run_actions cfg (createRetryer cfg True True)
            ([FnReject e1, Tick, Tick, FnReject e2, Tick, Tick, FnReject e3] @ later))) = 3
          \<and> promise (run_actions cfg (createRetryer cfg True True)
            ([FnReject e1, Tick, Tick, FnReject e2, Tick, Tick, FnReject e3] @ later))
              = Some (Rejected e3)
          \<and> failureCount (run_actions cfg (createRetryer cfg True True)
            ([FnReject e1, Tick, Tick, FnReject e2, Tick, Tick, FnReject e3] @ later)) = 2)
    \<and> (\<forall>isFocused isOnline any.
          calls (trace (run_actions cfg (createRetryer cfg isFocused isOnline) any)) \<le> 3)
    \<and> (\<forall>isFocused isOnline.
          isResolved (run_actions cfg (createRetryer cfg isFocused isOnline) acts) \<longrightarrow>
            calls (trace (run_actions cfg (createRetryer cfg isFocused isOnline) acts)) = 3
            \<and> failureCount (run_actions cfg (createRetryer cfg isFocused isOnline) acts) = 2
            \<and> (\<exists>e. promise (run_actions cfg (createRetryer cfg isFocused isOnline) acts)
                      = Some (Rejected e)
                  \<and> FnFailed e
                      \<in> set (trace (run_actions cfg (createRetryer cfg isFocused isOnline) acts))))
    \<and> run_actions cfg0 (createRetryer cfg0 True True) [FnReject e1]
      = \<lparr>isRetryCancelled = False, failureCount = 0, isResolved = True, continueFn = False,
         promise = Some (Rejected e1), phase = Stopped, focused = True, online = True,
         trace = [FnCalled, FnFailed e1, OnError e1]\<rparr>
    \<and> (\<forall>later.
          calls (trace (run_actions cfg0 (createRetryer cfg0 True True)
            (FnReject e1 # later))) = 1
          \<and> promise (run_actions cfg0 (createRetryer cfg0 True True) (FnReject e1 # later))
              = Some (Rejected e1)
          \<and> failureCount (run_actions cfg0 (createRetryer cfg0 True True)
            (FnReject e1 # later)) = 0)
    \<and> (\<forall>isFocused isOnline any.
          calls (trace (run_actions cfg0 (createRetryer cfg0 isFocused isOnline) any)) \<le> 1)
    \<and> (\<forall>isFocused isOnline.
          isResolved (run_actions cfg0 (createRetryer cfg0 isFocused isOnline) acts) \<longrightarrow>
            calls (trace (run_actions cfg0 (createRetryer cfg0 isFocused isOnline) acts)) = 1
            \<and> failureCount (run_actions cfg0 (createRetryer cfg0 isFocused isOnline) acts) = 0
            \<and> (\<exists>e. promise (run_actions cfg0 (createRetryer cfg0 isFocused isOnline) acts)
                      = Some (Rejected e)
                  \<and> FnFailed e
                      \<in> set (trace (run_actions cfg0 (createRetryer cfg0 isFocused isOnline) acts))))"
proof -
  let ?three = "[FnReject e1, Tick, Tick, FnReject e2, Tick, Tick, FnReject e3]"
  let ?end3 = "run_actions cfg (createRetryer cfg True True) ?three"
  let ?end1 = "run_actions cfg0 (createRetryer cfg0 True True) [FnReject e1]"
  note r3 = three_failures_run [OF assms(1,2), of e1 e2 e3]
  note r1 = one_failure_run [OF assms(3), of e1]
  have p2: "\<forall>fc e. shouldRetry cfg fc e = (fc < 2)"
    using assms(1) by (simp add: shouldRetry_number_2)
  have p0: "\<forall>fc e. shouldRetry cfg0 fc e = (fc < 0)"
    using assms(3) by (simp add: shouldRetry_false)
  have res3: "isResolved ?end3" and c3: "calls (trace ?end3) = 3"
    and pr3: "promise ?end3 = Some (Rejected e3)" and f3: "failureCount ?end3 = 2"
    unfolding r3 by (simp_all add: calls_simps)
  have res1: "isResolved ?end1" and c1: "calls (trace ?end1) = 1"
    and pr1: "promise ?end1 = Some (Rejected e1)" and f1: "failureCount ?end1 = 0"
    unfolding r1 by (simp_all add: calls_simps)
  have later3: "\<forall>later.
      calls (trace (run_actions cfg (createRetryer cfg True True) (?three @ later))) = 3
      \<and> promise (run_actions cfg (createRetryer cfg True True) (?three @ later))
          = Some (Rejected e3)
      \<and> failureCount (run_actions cfg (createRetryer cfg True True) (?three @ later)) = 2"
    using resolved_run_actions [OF res3, of cfg] c3 pr3 f3
    unfolding run_actions_append by simp
  have "\<forall>later.
      calls (trace (run_actions cfg0 (createRetryer cfg0 True True) ([FnReject e1] @ later))) = 1
      \<and> promise (run_actions cfg0 (createRetryer cfg0 True True) ([FnReject e1] @ later))
          = Some (Rejected e1)
      \<and> failureCount (run_actions cfg0 (createRetryer cfg0 True True) ([FnReject e1] @ later)) = 0"
    using resolved_run_actions [OF res1, of cfg0] c1 pr1 f1
    unfolding run_actions_append by simp
  then have later1: "\<forall>later.
      calls (trace (run_actions cfg0 (createRetryer cfg0 True True) (FnReject e1 # later))) = 1
      \<and> promise (run_actions cfg0 (createRetryer cfg0 True True) (FnReject e1 # later))
          = Some (Rejected e1)
      \<and> failureCount (run_actions cfg0 (createRetryer cfg0 True True) (FnReject e1 # later)) = 0"
    by simp
  have b3: "\<forall>isFocused isOnline any.
      calls (trace (run_actions cfg (createRetryer cfg isFocused isOnline) any)) \<le> 3"
    using calls_bounded [of cfg 2] p2 by simp
  have b1: "\<forall>isFocused isOnline any.
      calls (trace (run_actions cfg0 (createRetryer cfg0 isFocused isOnline) any)) \<le> 1"
    using calls_bounded [of cfg0 0] p0 by simp
  have x3: "\<forall>isFocused isOnline.
      isResolved (run_actions cfg (createRetryer cfg isFocused isOnline) acts) \<longrightarrow>
        calls (trace (run_actions cfg (createRetryer cfg isFocused isOnline) acts)) = 3
        \<and> failureCount (run_actions cfg (createRetryer cfg isFocused isOnline) acts) = 2
        \<and> (\<exists>e. promise (run_actions cfg (createRetryer cfg isFocused isOnline) acts)
                  = Some (Rejected e)
              \<and> FnFailed e
                  \<in> set (trace (run_actions cfg (createRetryer cfg isFocused isOnline) acts)))"
    using on_course_resolved [OF on_course_reachable [OF assms(4) p2]] by simp
  have x1: "\<forall>isFocused isOnline.
      isResolved (run_actions cfg0 (createRetryer cfg0 isFocused isOnline) acts) \<longrightarrow>
        calls (trace (run_actions cfg0 (createRetryer cfg0 isFocused isOnline) acts)) = 1
        \<and> failureCount (run_actions cfg0 (createRetryer cfg0 isFocused isOnline) acts) = 0
        \<and> (\<exists>e. promise (run_actions cfg0 (createRetryer cfg0 isFocused isOnline) acts)
                  = Some (Rejected e)
              \<and> FnFailed e
                  \<in> set (trace (run_actions cfg0 (createRetryer cfg0 isFocused isOnline) acts)))"
    using on_course_resolved [OF on_course_reachable [OF assms(4) p0]] by simp
  show ?thesis
    by (intro conjI) (rule r3, rule later3, rule b3, rule x3, rule r1, rule later1, rule b1,
      rule x1)
qed

theorem retry_twice_then_fail_witness:
  "promise (run_actions
      \<lparr>retry = Some (RetryNumber (Fin 2)), retryDelay = Some (DelayNumber (Fin 0)),
       networkMode = None, isServer = False\<rparr>
      (createRetryer
        \<lparr>retry = Some (RetryNumber (Fin 2)), retryDelay = Some (DelayNumber (Fin 0)),
         networkMode = None, isServer = False\<rparr> True True)
      [FnReject (Failure 1), Tick, Tick, FnReject (Failure 2), Tick, Tick,
       FnReject (Failure 3)]) = Some (Rejected (Failure 3))
   \<and> calls (trace (run_actions
      \<lparr>retry = Some (RetryNumber (Fin 2)), retryDelay = Some (DelayNumber (Fin 0)),
       networkMode = None, isServer = False\<rparr>
      (createRetryer
        \<lparr>retry = Some (RetryNumber (Fin 2)), retryDelay = Some (DelayNumber (Fin 0)),
         networkMode = None, isServer = False\<rparr> True True)
      [FnReject (Failure 1), Tick, Tick, FnReject (Failure 2), Tick, Tick,
       FnReject (Failure 3)])) = 3
   \<and> calls (trace (run_actions
      \<lparr>retry = Some (RetryNumber (Fin 2)), retryDelay = Some (DelayNumber (Fin 0)),
       networkMode = None, isServer = False\<rparr>
      (createRetryer
        \<lparr>retry = Some (RetryNumber (Fin 2)), retryDelay = Some (DelayNumber (Fin 0)),
         networkMode = None, isServer = False\<rparr> True True)
      [FnReject (Failure 1), Tick, Tick, FnReject (Failure 2), Tick, Tick,
       FnReject (Failure 3), Tick, FnFulfil 4, Tick])) = 3
   \<and> calls (trace (run_actions
      \<lparr>retry = Some (RetryBool False), retryDelay = None, networkMode = None,
       isServer = False\<rparr>
      (createRetryer
        \<lparr>retry = Some (RetryBool False), retryDelay = None, networkMode = None,
         isServer = False\<rparr> True True)
      [FnReject (Failure 1), Tick, FnFulfil 4])) = 1"
proof -
  let ?cfg = "\<lparr>retry = Some (RetryNumber (Fin 2)), retryDelay = Some (DelayNumber (Fin 0)),
    networkMode = None, isServer = False\<rparr>"
  let ?off = "\<lparr>retry = Some (RetryBool False), retryDelay = None, networkMode = None,
    isServer = False\<rparr>"
  have h1: "retry ?cfg = Some (RetryNumber (Fin 2))" by simp
  have h2: "retryDelay ?cfg = Some (DelayNumber (Fin 0))" by simp
  have h3: "retry ?off = Some (RetryBool False)" by simp
  have h4: "list_all plain [Tick]" by simp
  note th = retry_twice_then_fail [OF h1 h2 h3 h4, of "Failure 1" "Failure 2" "Failure 3"]
  have a: "promise (run_actions ?cfg (createRetryer ?cfg True True)
      [FnReject (Failure 1), Tick, Tick, FnReject (Failure 2), Tick, Tick, FnReject (Failure 3)])
      = Some (Rejected (Failure 3))"
    and b: "calls (trace (run_actions ?cfg (createRetryer ?cfg True True)
      [FnReject (Failure 1), Tick, Tick, FnReject (Failure 2), Tick, Tick,
       FnReject (Failure 3)])) = 3"
    unfolding th [THEN conjunct1] by (simp_all add: calls_simps)
  have c: "calls (trace (run_actions ?cfg (createRetryer ?cfg True True)
      ([FnReject (Failure 1), Tick, Tick, FnReject (Failure 2), Tick, Tick,
        FnReject (Failure 3)] @ [Tick, FnFulfil 4, Tick]))) = 3"
    using th [THEN conjunct2, THEN conjunct1] by blast
  have d: "calls (trace (run_actions ?off (createRetryer ?off True True)
      (FnReject (Failure 1) # [Tick, FnFulfil 4]))) = 1"
    using th [THEN conjunct2, THEN conjunct2, THEN conjunct2, THEN conjunct2, THEN conjunct2,
        THEN conjunct1]
    by blast
  from a b c d show ?thesis
    by simp
qed

end
